theory Spec2Isabelle
  imports Main "HOL-Library.Word" "HOL-Library.Monad_Syntax"
begin

unbundle bit_operations_syntax

section \<open>Text views\<close>

text \<open>
  The example \<^verbatim>\<open>unit_tests/ex_ipspace_properties.cc\<close> works on \<^verbatim>\<open>swoc::TextView\<close>,
  a non-owning view of characters. Only the characters a view shows matter to the
  functions below, so a view is the list of its characters; a method that changes the
  view in place returns the new view next to its result.
\<close>

type_synonym TextView = string

definition SEP :: char where
  \<comment> \<open>\<^verbatim>\<open>static constexpr char SEP = ','\<close>\<close>
  "SEP = CHR '',''"

definition QUOTE :: char where
  \<comment> \<open>the character \<^verbatim>\<open>'"'\<close> (0x22)\<close>
  "QUOTE = CHR 0x22"

definition isspace :: "char \<Rightarrow> bool" where
  \<comment> \<open>\<^verbatim>\<open>isspace\<close> of the C library in the "C" locale: space, \<^verbatim>\<open>\t \n \v \f \r\<close>\<close>
  "isspace c = (c = CHR 0x20 \<or> c = CHR 0x09 \<or> c = CHR 0x0A \<or> c = CHR 0x0B
                \<or> c = CHR 0x0C \<or> c = CHR 0x0D)"

definition tolower :: "char \<Rightarrow> char" where
  \<comment> \<open>\<^verbatim>\<open>tolower\<close> of the C library in the "C" locale\<close>
  "tolower c = (let n = (of_char c :: nat) in if 65 \<le> n \<and> n \<le> 90 then char_of (n + 32) else c)"

text \<open>
  Modelled from the spec: \<^verbatim>\<open>swoc::strcasecmp\<close> is declared in \<^verbatim>\<open>swoc/TextView.h\<close>, which is
  not among the sources. The spec says tokens are "matched case-insensitively" and
  "equal under case-insensitive comparison"; \<open>strcasecmp_eq a b\<close> is the test
  \<^verbatim>\<open>0 == strcasecmp(a, b)\<close>.
\<close>

definition strcasecmp_eq :: "TextView \<Rightarrow> TextView \<Rightarrow> bool" where
  "strcasecmp_eq a b = (map tolower a = map tolower b)"

text \<open>
  Modelled from the spec: \<^verbatim>\<open>find\<close> and \<^verbatim>\<open>find_first_of\<close> are the members of
  \<^verbatim>\<open>std::string_view\<close> that \<^verbatim>\<open>TextView\<close> inherits (not among the sources). Each returns
  the first position, at or after \<open>pos\<close>, of a character that is wanted, and \<^verbatim>\<open>npos\<close>
  when there is none; \<open>None\<close> stands for \<^verbatim>\<open>npos\<close>.
\<close>

definition find_first_of :: "TextView \<Rightarrow> string \<Rightarrow> nat \<Rightarrow> nat option" where
  "find_first_of s chars pos =
     (let r = drop pos s; k = length (takeWhile (\<lambda>x. x \<notin> set chars) r)
      in if k < length r then Some (pos + k) else None)"

definition find_char :: "TextView \<Rightarrow> char \<Rightarrow> nat option" where
  "find_char s c = find_first_of s [c] 0"

text \<open>
  Modelled from the spec: \<^verbatim>\<open>TextView::take_prefix\<close> and \<^verbatim>\<open>TextView::take_prefix_at\<close>
  (\<^verbatim>\<open>swoc/TextView.h\<close>, not among the sources). \<^verbatim>\<open>take_prefix(n)\<close> clamps \<open>n\<close> to the size
  of the view, returns the first \<open>n\<close> characters and removes them and the one
  character after them (the separator) from the view: the spec's "advances the cursor
  past the consumed field and its separator"; with no separator "the remainder of the
  line is the final field". The result is the pair of the prefix and the view left.
\<close>

definition take_prefix :: "nat option \<Rightarrow> TextView \<Rightarrow> TextView \<times> TextView" where
  "take_prefix n s =
     (let n' = (case n of None \<Rightarrow> length s | Some k \<Rightarrow> min k (length s))
      in (take n' s, drop (min (n' + 1) (length s)) s))"

definition take_prefix_at :: "char \<Rightarrow> TextView \<Rightarrow> TextView \<times> TextView" where
  "take_prefix_at c s = take_prefix (find_char s c) s"

text \<open>
  Modelled from the spec: \<^verbatim>\<open>TextView::trim_if\<close> (\<^verbatim>\<open>swoc/TextView.h\<close>, not among the
  sources) removes the leading and the trailing characters that satisfy the predicate:
  "trimmed of leading/trailing whitespace".
\<close>

definition trim_if :: "(char \<Rightarrow> bool) \<Rightarrow> TextView \<Rightarrow> TextView" where
  "trim_if pred s = rev (dropWhile pred (rev (dropWhile pred s)))"

text \<open>
  Modelled from the spec: \<^verbatim>\<open>TextView::trim(char)\<close> (\<^verbatim>\<open>swoc/TextView.h\<close>, not among the
  sources). The spec's words for the call \<^verbatim>\<open>trim('"')\<close> are "then of one leading and one
  trailing literal quote character if present": one character at most leaves each end.
\<close>

definition trim :: "char \<Rightarrow> TextView \<Rightarrow> TextView" where
  "trim c s =
     (let s1 = (if s \<noteq> [] \<and> hd s = c then tl s else s)
      in if s1 \<noteq> [] \<and> last s1 = c then butlast s1 else s1)"

subsection \<open>What \<open>find_first_of\<close> returns\<close>

lemma find_first_of_Some:
  assumes "find_first_of s chars pos = Some i"
  shows "pos \<le> i" and "i < length s" and "s ! i \<in> set chars"
    and "\<And>j. pos \<le> j \<Longrightarrow> j < i \<Longrightarrow> s ! j \<notin> set chars"
proof -
  define r where "r = drop pos s"
  define k where "k = length (takeWhile (\<lambda>x. x \<notin> set chars) r)"
  from assms have k: "k < length r" and i: "i = pos + k"
    by (auto simp: find_first_of_def r_def k_def Let_def split: if_splits)
  show "pos \<le> i" using i by simp
  show "i < length s" using k i by (simp add: r_def)
  have "\<not> (r ! k \<notin> set chars)"
    using k unfolding k_def by (rule nth_length_takeWhile)
  then show "s ! i \<in> set chars"
    using k i by (simp add: r_def add.commute)
  fix j assume j: "pos \<le> j" "j < i"
  then have jk: "j - pos < k" using i by simp
  have "takeWhile (\<lambda>x. x \<notin> set chars) r ! (j - pos) \<in> set (takeWhile (\<lambda>x. x \<notin> set chars) r)"
    using jk by (simp add: k_def)
  then have "takeWhile (\<lambda>x. x \<notin> set chars) r ! (j - pos) \<notin> set chars"
    by (auto dest: set_takeWhileD)
  moreover have "takeWhile (\<lambda>x. x \<notin> set chars) r ! (j - pos) = r ! (j - pos)"
    using jk by (simp add: k_def takeWhile_nth)
  ultimately show "s ! j \<notin> set chars"
    using j k i by (simp add: r_def)
qed

lemma find_first_of_None:
  assumes "find_first_of s chars pos = None" and "pos \<le> j" and "j < length s"
  shows "s ! j \<notin> set chars"
proof -
  define r where "r = drop pos s"
  from assms(1) have "length (takeWhile (\<lambda>x. x \<notin> set chars) r) = length r"
    using length_takeWhile_le [of "\<lambda>x. x \<notin> set chars" r]
    by (auto simp: find_first_of_def r_def Let_def split: if_splits)
  then have "takeWhile (\<lambda>x. x \<notin> set chars) r = r"
    using takeWhile_eq_take [of "\<lambda>x. x \<notin> set chars" r] by simp
  then have all: "\<And>x. x \<in> set r \<Longrightarrow> x \<notin> set chars"
    by (auto simp: takeWhile_eq_all_conv)
  have "j - pos < length r" and "r ! (j - pos) = s ! j"
    using assms(2,3) by (simp_all add: r_def)
  then have "s ! j \<in> set r"
    by (metis nth_mem)
  then show ?thesis by (rule all)
qed

section \<open>The tokenizer: \<^verbatim>\<open>Table::token\<close>\<close>

text \<open>
  The loop of \<^verbatim>\<open>Table::token\<close> (lines 220 to 239) over the index \<open>idx\<close> and the flag
  \<open>in_quote_p\<close>. Its value is the \<open>idx\<close> the loop ends with; \<open>None\<close> is \<^verbatim>\<open>npos\<close>.
  The source has no branch for a found character that is neither the quote nor the
  separator (it would go round the loop with the same \<open>idx\<close>); the last branch keeps that.
\<close>

definition sep_list :: string where
  \<comment> \<open>\<^verbatim>\<open>char sep_list[3] = {'"', SEP, 0}\<close>, read as a null-terminated string\<close>
  "sep_list = [QUOTE, SEP]"

function token_loop :: "TextView \<Rightarrow> nat \<Rightarrow> bool \<Rightarrow> nat option" where
  "token_loop line idx in_quote_p =
     (if idx < length line then
        (case find_first_of line sep_list idx of
           None \<Rightarrow> None
         | Some i \<Rightarrow>
             if line ! i = QUOTE then token_loop line (i + 1) (\<not> in_quote_p)
             else if line ! i = SEP then
               (if in_quote_p then token_loop line (i + 1) in_quote_p else Some i)
             else token_loop line i in_quote_p)
      else Some idx)"
  by pat_completeness auto
termination
proof (relation "measure (\<lambda>(line, idx, q). length line - idx)", goal_cases)
  case 1
  show ?case by simp
next
  case (2 line idx q i)
  then show ?case using find_first_of_Some(1,2) [of line sep_list idx i] by simp
next
  case (3 line idx q i)
  then show ?case using find_first_of_Some(1,2) [of line sep_list idx i] by simp
next
  case (4 line idx q i)
  then show ?case using find_first_of_Some(3) [of line sep_list idx i]
    by (simp add: sep_list_def)
qed

declare token_loop.simps [simp del]

text \<open>
  \<^verbatim>\<open>Table::token\<close>: the field is clipped with \<^verbatim>\<open>take_prefix(idx)\<close>, trimmed of white
  space and then of quotes (line 242). The result is the token and the line left.
\<close>

definition Table_token :: "TextView \<Rightarrow> TextView \<times> TextView" where
  "Table_token line =
     (let idx = token_loop line 0 False;
          (zret, line') = take_prefix idx line
      in (trim QUOTE (trim_if isspace zret), line'))"

subsection \<open>Where the loop stops\<close>

text \<open>
  A position of the line lies inside a quoted region when an odd number of quote
  characters stands before it. \<open>field_end\<close> is the length of the field the loop
  clips: the index it ends with, or the whole line for \<^verbatim>\<open>npos\<close>.
\<close>

definition in_quotes :: "TextView \<Rightarrow> nat \<Rightarrow> bool" where
  "in_quotes line i = odd (length (filter (\<lambda>c. c = QUOTE) (take i line)))"

lemma in_quotes_0: "\<not> in_quotes line 0"
  by (simp add: in_quotes_def)

lemma in_quotes_Suc:
  "i < length line \<Longrightarrow> in_quotes line (Suc i) = (if line ! i = QUOTE then \<not> in_quotes line i else in_quotes line i)"
  by (simp add: in_quotes_def take_Suc_conv_app_nth)

lemma in_quotes_skip:
  assumes "a \<le> b" and "b \<le> length line" and "\<And>j. a \<le> j \<Longrightarrow> j < b \<Longrightarrow> line ! j \<noteq> QUOTE"
  shows "in_quotes line b = in_quotes line a"
  using assms
proof (induction b)
  case 0
  then show ?case by simp
next
  case (Suc b)
  show ?case
  proof (cases "a = Suc b")
    case True
    then show ?thesis by simp
  next
    case False
    then have ab: "a \<le> b" using Suc.prems(1) by simp
    have "in_quotes line (Suc b) = in_quotes line b"
      using Suc.prems(2) Suc.prems(3) [of b] ab by (simp add: in_quotes_Suc)
    also have "\<dots> = in_quotes line a"
      using Suc.IH ab Suc.prems by simp
    finally show ?thesis .
  qed
qed

definition field_end :: "TextView \<Rightarrow> nat \<Rightarrow> bool \<Rightarrow> nat" where
  "field_end line idx q = (case token_loop line idx q of None \<Rightarrow> length line | Some i \<Rightarrow> i)"

lemma QUOTE_neq_SEP: "QUOTE \<noteq> SEP"
  by (simp add: QUOTE_def SEP_def)

lemma token_loop_spec:
  assumes "q = in_quotes line idx" and "idx \<le> length line"
    and "\<And>j. j < idx \<Longrightarrow> line ! j = SEP \<Longrightarrow> in_quotes line j"
  shows "field_end line idx q \<le> length line
       \<and> (\<forall>j. j < field_end line idx q \<and> line ! j = SEP \<longrightarrow> in_quotes line j)
       \<and> (field_end line idx q < length line \<longrightarrow>
            line ! field_end line idx q = SEP \<and> \<not> in_quotes line (field_end line idx q))"
  using assms
proof (induction line idx q rule: token_loop.induct)
  case (1 line idx q)
  show ?case
  proof (cases "idx < length line")
    case False
    then have "token_loop line idx q = Some idx"
      by (simp add: token_loop.simps [of line idx q])
    then have "field_end line idx q = length line"
      using "1.prems"(2) False by (simp add: field_end_def)
    then show ?thesis using "1.prems"(2,3) False by auto
  next
    case lt: True
    show ?thesis
    proof (cases "find_first_of line sep_list idx")
      case None
      then have fe: "field_end line idx q = length line"
        using lt by (simp add: field_end_def token_loop.simps [of line idx q])
      have "in_quotes line j" if "j < length line" "line ! j = SEP" for j
      proof (cases "j < idx")
        case True
        then show ?thesis using "1.prems"(3) that by blast
      next
        case False
        then have "line ! j \<notin> set sep_list"
          using find_first_of_None [OF None, of j] that by simp
        then show ?thesis using that by (simp add: sep_list_def)
      qed
      then show ?thesis using fe by simp
    next
      case (Some i)
      note f = find_first_of_Some [OF Some]
      have unf: "token_loop line idx q =
        (if line ! i = QUOTE then token_loop line (i + 1) (\<not> q)
         else if line ! i = SEP then (if q then token_loop line (i + 1) q else Some i)
         else token_loop line i q)"
        using lt Some by (simp add: token_loop.simps [of line idx q])
      have noq: "\<And>j. idx \<le> j \<Longrightarrow> j < i \<Longrightarrow> line ! j \<noteq> QUOTE"
        and nos: "\<And>j. idx \<le> j \<Longrightarrow> j < i \<Longrightarrow> line ! j \<noteq> SEP"
        using f(4) by (auto simp: sep_list_def)
      have qi: "in_quotes line i = q"
        using in_quotes_skip [of idx i line] f(1,2) noq "1.prems"(1) by simp
      have before: "in_quotes line j" if "j < i" "line ! j = SEP" for j
        using that "1.prems"(3) [of j] nos [of j] by (cases "j < idx") auto
      consider (quote) "line ! i = QUOTE"
        | (sepq) "line ! i \<noteq> QUOTE" "line ! i = SEP" "q"
        | (sep) "line ! i \<noteq> QUOTE" "line ! i = SEP" "\<not> q"
        using f(3) QUOTE_neq_SEP by (cases q) (auto simp: sep_list_def)
      then show ?thesis
      proof cases
        case quote
        have eq: "field_end line idx q = field_end line (i + 1) (\<not> q)"
          using unf quote by (simp add: field_end_def)
        have "(\<not> q) = in_quotes line (i + 1)"
          using f(2) quote qi by (simp add: in_quotes_Suc)
        moreover have "i + 1 \<le> length line" using f(2) by simp
        moreover have "in_quotes line j" if "j < i + 1" "line ! j = SEP" for j
          using that before [of j] quote QUOTE_neq_SEP by (cases "j = i") auto
        ultimately show ?thesis
          unfolding eq using "1.IH"(1) [OF lt Some quote] by blast
      next
        case sepq
        have eq: "field_end line idx q = field_end line (i + 1) q"
          using unf sepq by (simp add: field_end_def)
        have "q = in_quotes line (i + 1)"
          using f(2) sepq qi by (simp add: in_quotes_Suc)
        moreover have "i + 1 \<le> length line" using f(2) by simp
        moreover have "in_quotes line j" if "j < i + 1" "line ! j = SEP" for j
          using that before [of j] sepq qi by (cases "j = i") auto
        ultimately show ?thesis
          unfolding eq using "1.IH"(2) [OF lt Some sepq(1,2,3)] by blast
      next
        case sep
        have eq: "field_end line idx q = i"
          using unf sep by (simp add: field_end_def)
        show ?thesis
          unfolding eq using f(2) before sep qi by auto
      qed
    qed
  qed
qed


lemma take_prefix_field_end:
  assumes "field_end line 0 False \<le> length line"
  shows "take_prefix (token_loop line 0 False) line
         = (take (field_end line 0 False) line, drop (Suc (field_end line 0 False)) line)"
proof (cases "token_loop line 0 False")
  case None
  then show ?thesis by (simp add: take_prefix_def field_end_def)
next
  case (Some i)
  then have i: "i \<le> length line" using assms by (simp add: field_end_def token_loop.simps [of line idx q])
  show ?thesis
  proof (cases "i < length line")
    case True
    then show ?thesis using Some by (simp add: take_prefix_def field_end_def min_def)
  next
    case False
    then show ?thesis using Some i by (simp add: take_prefix_def field_end_def min_def)
  qed
qed

lemma Table_token_eq:
  "Table_token line = (trim QUOTE (trim_if isspace (take (field_end line 0 False) line)),
                       drop (Suc (field_end line 0 False)) line)"
proof -
  have "field_end line 0 False \<le> length line"
    using token_loop_spec [of False line 0] by (simp add: in_quotes_0)
  then show ?thesis
    by (simp add: Table_token_def take_prefix_field_end)
qed

text \<open>
  C4. \<^verbatim>\<open>Table::token\<close> ends a field only at a separator outside a quoted region: for
  every line there is an \<open>n\<close> (the length of the field) such that every separator
  before \<open>n\<close> lies inside quotes, position \<open>n\<close> is either the end of the line or a
  separator outside quotes, the token is the first \<open>n\<close> characters trimmed, and the
  cursor is left after the field and its separator. The line \<^verbatim>\<open>"a,b",c\<close> gives the two
  fields \<^verbatim>\<open>a,b\<close> and \<^verbatim>\<open>c\<close>: the first call leaves the cursor at \<^verbatim>\<open>c\<close>, the second
  leaves it empty.
\<close>

theorem Table_token_quote_aware:
  "(\<exists>n. n \<le> length line
       \<and> (\<forall>j. j < n \<and> line ! j = SEP \<longrightarrow> in_quotes line j)
       \<and> (n < length line \<longrightarrow> line ! n = SEP \<and> \<not> in_quotes line n)
       \<and> Table_token line = (trim QUOTE (trim_if isspace (take n line)), drop (Suc n) line))
   \<and> Table_token (QUOTE # ''a,b'' @ QUOTE # '',c'') = (''a,b'', ''c'')
   \<and> Table_token ''c'' = (''c'', [])"
proof (intro conjI)
  show "\<exists>n. n \<le> length line
       \<and> (\<forall>j. j < n \<and> line ! j = SEP \<longrightarrow> in_quotes line j)
       \<and> (n < length line \<longrightarrow> line ! n = SEP \<and> \<not> in_quotes line n)
       \<and> Table_token line = (trim QUOTE (trim_if isspace (take n line)), drop (Suc n) line)"
    using token_loop_spec [of False line 0] Table_token_eq [of line]
    by (intro exI [of _ "field_end line 0 False"]) (simp add: in_quotes_0)
  show "Table_token (QUOTE # ''a,b'' @ QUOTE # '',c'') = (''a,b'', ''c'')"
    by code_simp
  show "Table_token ''c'' = (''c'', [])"
    by code_simp
qed

theorem Table_token_quote_aware_witness:
  "(\<exists>n. n = 5 \<and> (QUOTE # ''a,b'' @ QUOTE # '',c'') ! n = SEP
        \<and> \<not> in_quotes (QUOTE # ''a,b'' @ QUOTE # '',c'') n
        \<and> (QUOTE # ''a,b'' @ QUOTE # '',c'') ! 2 = SEP
        \<and> in_quotes (QUOTE # ''a,b'' @ QUOTE # '',c'') 2
        \<and> Table_token (QUOTE # ''a,b'' @ QUOTE # '',c'')
            = (trim QUOTE (trim_if isspace (take n (QUOTE # ''a,b'' @ QUOTE # '',c''))), ''c''))"
proof -
  let ?l = "QUOTE # ''a,b'' @ QUOTE # '',c''"
  from Table_token_quote_aware [of ?l]
  obtain n where n: "n \<le> length ?l"
    "\<forall>j. j < n \<and> ?l ! j = SEP \<longrightarrow> in_quotes ?l j"
    "n < length ?l \<longrightarrow> ?l ! n = SEP \<and> \<not> in_quotes ?l n"
    "Table_token ?l = (trim QUOTE (trim_if isspace (take n ?l)), drop (Suc n) ?l)"
    by blast
  have tok: "Table_token ?l = (''a,b'', ''c'')" by code_simp
  have len: "length ?l = 7" by simp
  have q5: "\<not> in_quotes ?l 5" by code_simp
  have q2: "in_quotes ?l 2" by code_simp
  have s5: "?l ! 5 = SEP" by code_simp
  have s2: "?l ! 2 = SEP" by code_simp
  have "drop (Suc n) ?l = ''c''" using n(4) tok by simp
  then have "length (drop (Suc n) ?l) = 1" by simp
  then have "n = 5" using len by simp
  then show ?thesis using n(4) tok q5 q2 s5 s2 by simp
qed

subsection \<open>Trimming the field\<close>

text \<open>The field as \<^verbatim>\<open>take_prefix(idx)\<close> clips it, before any trimming (line 242).\<close>

definition raw_field :: "TextView \<Rightarrow> TextView" where
  "raw_field line = fst (take_prefix (token_loop line 0 False) line)"

lemma raw_field_eq: "raw_field line = take (field_end line 0 False) line"
proof -
  have "field_end line 0 False \<le> length line"
    using token_loop_spec [of False line 0] by (simp add: in_quotes_0)
  then show ?thesis
    by (simp add: raw_field_def take_prefix_field_end)
qed

lemma Table_token_raw_field:
  "fst (Table_token line) = trim QUOTE (trim_if isspace (raw_field line))"
  by (simp add: Table_token_eq raw_field_eq)

lemma trim_if_split:
  "\<exists>a b. s = a @ trim_if pred s @ b \<and> list_all pred a \<and> list_all pred b"
proof -
  define d where "d = dropWhile pred s"
  have s: "s = takeWhile pred s @ d"
    by (simp add: d_def)
  have "d = rev (takeWhile pred (rev d) @ dropWhile pred (rev d))"
    by (simp only: takeWhile_dropWhile_id rev_rev_ident)
  also have "\<dots> = rev (dropWhile pred (rev d)) @ rev (takeWhile pred (rev d))"
    by (simp only: rev_append)
  finally have d: "d = trim_if pred s @ rev (takeWhile pred (rev d))"
    by (simp only: trim_if_def d_def)
  have a: "list_all pred (takeWhile pred s)"
    by (auto simp: list_all_iff dest: set_takeWhileD)
  have b: "list_all pred (rev (takeWhile pred (rev d)))"
    by (auto simp: list_all_iff dest: set_takeWhileD)
  have "s = takeWhile pred s @ trim_if pred s @ rev (takeWhile pred (rev d))"
    using s d by simp
  then show ?thesis using a b by blast
qed

lemma trim_if_ends:
  assumes "trim_if pred s \<noteq> []"
  shows "\<not> pred (hd (trim_if pred s))" and "\<not> pred (last (trim_if pred s))"
proof -
  define d where "d = dropWhile pred s"
  define e where "e = dropWhile pred (rev d)"
  have w: "trim_if pred s = rev e" by (simp add: trim_if_def d_def e_def)
  then have e: "e \<noteq> []" using assms by simp
  then have "\<not> pred (hd e)" unfolding e_def by (rule hd_dropWhile)
  then show "\<not> pred (last (trim_if pred s))"
    using e w by (simp add: last_rev)
  have dne: "d \<noteq> []" using e by (auto simp: e_def)
  then have hd: "\<not> pred (hd d)" unfolding d_def by (rule hd_dropWhile)
  have "d = rev (takeWhile pred (rev d) @ dropWhile pred (rev d))"
    by (simp only: takeWhile_dropWhile_id rev_rev_ident)
  then have "d = rev e @ rev (takeWhile pred (rev d))"
    by (simp only: rev_append e_def)
  then have "hd d = hd (rev e)" using e by (metis hd_append2 rev_is_Nil_conv)
  then show "\<not> pred (hd (trim_if pred s))" using hd w by simp
qed

lemma trim_split:
  "\<exists>p s. w = p @ trim c w @ s
     \<and> p = (if w \<noteq> [] \<and> hd w = c then [c] else [])
     \<and> s = (if drop (length p) w \<noteq> [] \<and> last (drop (length p) w) = c then [c] else [])"
proof (cases "w \<noteq> [] \<and> hd w = c")
  case True
  then have w: "w = c # tl w" by (cases w) auto
  then have d: "drop (length [c]) w = tl w" by (cases w) auto
  show ?thesis
  proof (cases "tl w \<noteq> [] \<and> last (tl w) = c")
    case t: True
    then have "tl w = butlast (tl w) @ [c]" by (metis append_butlast_last_id)
    then have "w = [c] @ trim c w @ [c]"
      using True t w by (simp add: trim_def)
    then show ?thesis using True t d by (intro exI [of _ "[c]"]) simp
  next
    case f: False
    then have "w = [c] @ trim c w @ []"
      using True w by (auto simp: trim_def)
    then show ?thesis using True f d by (intro exI [of _ "[c]"] exI [of _ "[]"]) simp
  qed
next
  case False
  show ?thesis
  proof (cases "w \<noteq> [] \<and> last w = c")
    case t: True
    then have "w = butlast w @ [c]" by (metis append_butlast_last_id)
    then have "w = [] @ trim c w @ [c]"
      using False t by (auto simp: trim_def)
    then show ?thesis using False t by (intro exI [of _ "[]"] exI [of _ "[c]"]) simp
  next
    case f: False
    then have "w = [] @ trim c w @ []"
      using False by (auto simp: trim_def)
    then show ?thesis using False f by (intro exI [of _ "[]"]) simp
  qed
qed

text \<open>
  C8. The token \<^verbatim>\<open>Table::token\<close> returns is the clipped field trimmed first of white
  space and then of quotes: the field is \<open>a @ w @ b\<close> with \<open>a\<close> and \<open>b\<close> white space
  and \<open>w\<close> neither starting nor ending with white space, and \<open>w\<close> is \<open>p @ token @ s\<close>
  where \<open>p\<close> is one quote if \<open>w\<close> starts with a quote and empty otherwise, and \<open>s\<close> is
  one quote if what is left after \<open>p\<close> ends with a quote and empty otherwise. So a
  field \<^verbatim>\<open>""a""\<close> gives the token \<^verbatim>\<open>"a"\<close>. The quote trimming is \<open>trim\<close>, modelled from
  the spec's words; the order of the two trims is the source's.
\<close>

theorem Table_token_trim:
  "(\<exists>a b. raw_field line = a @ trim_if isspace (raw_field line) @ b
          \<and> list_all isspace a \<and> list_all isspace b)
   \<and> (trim_if isspace (raw_field line) \<noteq> [] \<longrightarrow>
        \<not> isspace (hd (trim_if isspace (raw_field line)))
        \<and> \<not> isspace (last (trim_if isspace (raw_field line))))
   \<and> (\<exists>p s. trim_if isspace (raw_field line) = p @ fst (Table_token line) @ s
          \<and> p = (if trim_if isspace (raw_field line) \<noteq> []
                     \<and> hd (trim_if isspace (raw_field line)) = QUOTE then [QUOTE] else [])
          \<and> s = (if drop (length p) (trim_if isspace (raw_field line)) \<noteq> []
                     \<and> last (drop (length p) (trim_if isspace (raw_field line))) = QUOTE
                  then [QUOTE] else []))
   \<and> fst (Table_token ([QUOTE, QUOTE] @ ''a'' @ [QUOTE, QUOTE] @ '',b'')) = [QUOTE] @ ''a'' @ [QUOTE]"
proof (intro conjI)
  show "\<exists>a b. raw_field line = a @ trim_if isspace (raw_field line) @ b
          \<and> list_all isspace a \<and> list_all isspace b"
    by (rule trim_if_split)
  show "trim_if isspace (raw_field line) \<noteq> [] \<longrightarrow>
        \<not> isspace (hd (trim_if isspace (raw_field line)))
        \<and> \<not> isspace (last (trim_if isspace (raw_field line)))"
    using trim_if_ends [of isspace "raw_field line"] by blast
  show "\<exists>p s. trim_if isspace (raw_field line) = p @ fst (Table_token line) @ s
          \<and> p = (if trim_if isspace (raw_field line) \<noteq> []
                     \<and> hd (trim_if isspace (raw_field line)) = QUOTE then [QUOTE] else [])
          \<and> s = (if drop (length p) (trim_if isspace (raw_field line)) \<noteq> []
                     \<and> last (drop (length p) (trim_if isspace (raw_field line))) = QUOTE
                  then [QUOTE] else [])"
    unfolding Table_token_raw_field by (rule trim_split)
  show "fst (Table_token ([QUOTE, QUOTE] @ ''a'' @ [QUOTE, QUOTE] @ '',b'')) = [QUOTE] @ ''a'' @ [QUOTE]"
    by code_simp
qed

theorem Table_token_trim_witness:
  "trim_if isspace (raw_field ('' '' @ [QUOTE, QUOTE] @ ''a'' @ [QUOTE, QUOTE] @ '' ,b'')) \<noteq> []
   \<and> \<not> isspace (hd (trim_if isspace (raw_field ('' '' @ [QUOTE, QUOTE] @ ''a'' @ [QUOTE, QUOTE] @ '' ,b''))))
   \<and> \<not> isspace (last (trim_if isspace (raw_field ('' '' @ [QUOTE, QUOTE] @ ''a'' @ [QUOTE, QUOTE] @ '' ,b''))))
   \<and> trim_if isspace (raw_field ('' '' @ [QUOTE, QUOTE] @ ''a'' @ [QUOTE, QUOTE] @ '' ,b''))
       = [QUOTE] @ fst (Table_token ('' '' @ [QUOTE, QUOTE] @ ''a'' @ [QUOTE, QUOTE] @ '' ,b'')) @ [QUOTE]
   \<and> fst (Table_token ('' '' @ [QUOTE, QUOTE] @ ''a'' @ [QUOTE, QUOTE] @ '' ,b'')) = [QUOTE] @ ''a'' @ [QUOTE]"
proof -
  let ?l = "'' '' @ [QUOTE, QUOTE] @ ''a'' @ [QUOTE, QUOTE] @ '' ,b''"
  have ne: "trim_if isspace (raw_field ?l) \<noteq> []"
    by code_simp
  with Table_token_trim [of ?l]
  have "\<not> isspace (hd (trim_if isspace (raw_field ?l)))
        \<and> \<not> isspace (last (trim_if isspace (raw_field ?l)))"
    by blast
  moreover have "fst (Table_token ?l) = [QUOTE] @ ''a'' @ [QUOTE]"
    by code_simp
  moreover have "trim_if isspace (raw_field ?l) = [QUOTE] @ fst (Table_token ?l) @ [QUOTE]"
    by code_simp
  ultimately show ?thesis using ne by blast
qed


section \<open>Row storage\<close>

text \<open>
  A row is a block of bytes from the table's arena. Three of the property classes write
  values of \<^verbatim>\<open>uint8_t\<close>; \<^verbatim>\<open>StringProperty\<close> copies the object representation of a
  \<^verbatim>\<open>TextView\<close> (a pointer and a length) into the row, whose byte values depend on where
  the arena placed the text. Such a byte is kept symbolically: \<open>ViewByte tok k\<close> is byte
  \<open>k\<close> of the representation of a view showing \<open>tok\<close>.
\<close>

datatype mbyte = Byte "8 word" | ViewByte TextView nat

type_synonym memory = "mbyte list"

text \<open>
  \<^verbatim>\<open>swoc::MemSpan<std::byte>\<close> is a pointer and a count. The pointer is kept as the
  offset of the span's first byte in the block of its row.
\<close>

record MemSpan =
  ptr :: nat
  count :: nat

text \<open>
  Modelled from the spec: \<^verbatim>\<open>MemSpan::remove_prefix\<close>, \<^verbatim>\<open>MemSpan::operator[]\<close> and
  \<^verbatim>\<open>swoc::memset\<close> are declared in \<^verbatim>\<open>swoc/MemSpan.h\<close>, which is not among the sources.
  \<^verbatim>\<open>remove_prefix(n)\<close> drops the first \<open>n\<close> elements (all of them when the span is
  shorter). \<^verbatim>\<open>operator[]\<close> is plain pointer indexing with no check against the count:
  an index past the count reaches the bytes that follow the span in the block. An
  access outside the block has no defined behaviour and is \<open>None\<close>.
\<close>

definition MemSpan_remove_prefix :: "nat \<Rightarrow> MemSpan \<Rightarrow> MemSpan" where
  "MemSpan_remove_prefix n sp =
     (let c = min (count sp) n in \<lparr>ptr = ptr sp + c, count = count sp - c\<rparr>)"

definition span_load :: "memory \<Rightarrow> MemSpan \<Rightarrow> nat \<Rightarrow> mbyte option" where
  "span_load mem sp i = (if ptr sp + i < length mem then Some (mem ! (ptr sp + i)) else None)"

definition span_store :: "memory \<Rightarrow> MemSpan \<Rightarrow> nat \<Rightarrow> mbyte \<Rightarrow> memory option" where
  "span_store mem sp i b =
     (if ptr sp + i < length mem then Some (mem[ptr sp + i := b]) else None)"

definition store_bytes :: "memory \<Rightarrow> nat \<Rightarrow> mbyte list \<Rightarrow> memory option" where
  \<comment> \<open>\<^verbatim>\<open>memcpy\<close> and \<^verbatim>\<open>memset\<close>: the bytes \<open>bs\<close> written from offset \<open>p\<close> on\<close>
  "store_bytes mem p bs =
     (if p + length bs \<le> length mem
      then Some (take p mem @ bs @ drop (p + length bs) mem) else None)"

definition memset_span :: "memory \<Rightarrow> MemSpan \<Rightarrow> 8 word \<Rightarrow> memory option" where
  "memset_span mem sp v = store_bytes mem (ptr sp) (replicate (count sp) (Byte v))"

text \<open>
  Modelled from the spec: \<^verbatim>\<open>MemArena::alloc\<close> is declared in \<^verbatim>\<open>swoc/MemArena.h\<close>, which is
  not among the sources. The spec says \<^verbatim>\<open>Table::parse\<close> "allocates a zeroed byte span of
  total row size from the bump allocator".
\<close>

definition arena_alloc :: "nat \<Rightarrow> memory" where
  "arena_alloc n = replicate n (Byte 0)"

section \<open>Properties\<close>

text \<open>
  The classes derived from \<^verbatim>\<open>Table::Property\<close> are a closed set, so a property is a record
  with the members of the base class, the class it belongs to and the member \<^verbatim>\<open>_tags\<close>
  that \<^verbatim>\<open>FlagGroupProperty\<close> and \<^verbatim>\<open>TagProperty\<close> both declare. A member \<^verbatim>\<open>_x\<close> of the
  source is the field \<open>m_x\<close>. \<^verbatim>\<open>FlagProperty\<close> declares no constructor (its base class has
  no default constructor) and its \<^verbatim>\<open>parse\<close> has no definition in the source, so no table
  holds one; it is treated on its own below.
\<close>

datatype Kind = KFlagGroup | KTag | KString

record Property =
  m_name :: TextView
  m_idx :: "32 word"
  m_offset :: "64 word"
  kind :: Kind
  m_tags :: "TextView list"

definition FlagGroupProperty :: "TextView \<Rightarrow> TextView list \<Rightarrow> Property" where
  "FlagGroupProperty name tags =
     \<lparr>m_name = name, m_idx = - 1, m_offset = - 1, kind = KFlagGroup, m_tags = tags\<rparr>"

definition TagProperty :: "TextView \<Rightarrow> Property" where
  "TagProperty name = \<lparr>m_name = name, m_idx = - 1, m_offset = - 1, kind = KTag, m_tags = []\<rparr>"

definition StringProperty :: "TextView \<Rightarrow> Property" where
  "StringProperty name =
     \<lparr>m_name = name, m_idx = - 1, m_offset = - 1, kind = KString, m_tags = []\<rparr>"

definition FlagGroupProperty_SIZE :: "64 word" where
  \<comment> \<open>\<^verbatim>\<open>sizeof(uint8_t)\<close>\<close>
  "FlagGroupProperty_SIZE = 1"

definition TagProperty_SIZE :: "64 word" where
  \<comment> \<open>\<^verbatim>\<open>sizeof(uint8_t)\<close>\<close>
  "TagProperty_SIZE = 1"

definition StringProperty_SIZE :: "64 word" where
  \<comment> \<open>\<^verbatim>\<open>sizeof(TextView)\<close>: a pointer and a length, 8 bytes each on an LP64 platform\<close>
  "StringProperty_SIZE = 16"

definition Property_size :: "Property \<Rightarrow> 64 word" where
  "Property_size p =
     (case kind p of KFlagGroup \<Rightarrow> FlagGroupProperty_SIZE | KTag \<Rightarrow> TagProperty_SIZE
      | KString \<Rightarrow> StringProperty_SIZE)"

definition needs_localized_token :: "Property \<Rightarrow> bool" where
  "needs_localized_token p = (case kind p of KString \<Rightarrow> True | _ \<Rightarrow> False)"

text \<open>What the source prints on \<^verbatim>\<open>std::cout\<close>, one value for each message.\<close>

datatype diag =
  InvalidRange TextView
  | InvalidValue TextView "32 word" "32 word"
  | UnknownTag TextView

subsection \<open>\<^verbatim>\<open>StringProperty::parse\<close>\<close>

definition StringProperty_parse :: "TextView \<Rightarrow> MemSpan \<Rightarrow> memory \<Rightarrow> (bool \<times> memory) option" where
  "StringProperty_parse token span mem =
     (case store_bytes mem (ptr span) (map (ViewByte token) [0 ..< unat StringProperty_SIZE]) of
        None \<Rightarrow> None
      | Some mem' \<Rightarrow> Some (True, mem'))"

subsection \<open>\<^verbatim>\<open>FlagGroupProperty::parse\<close>\<close>

text \<open>
  The \<^verbatim>\<open>for\<close> loop over \<^verbatim>\<open>_tags\<close> (lines 353 to 359): it ends with the index \<open>j\<close> of the
  first key that matches, after setting bit \<open>j mod 8\<close> of byte \<open>j div 8\<close> of the span, or
  with \<open>j\<close> the number of keys. The counter is \<^verbatim>\<open>unsigned\<close>; it stays below the number of
  tags of an initializer list and is a natural number here.
\<close>

fun FlagGroup_for :: "TextView list \<Rightarrow> TextView \<Rightarrow> nat \<Rightarrow> MemSpan \<Rightarrow> memory \<Rightarrow> (nat \<times> memory) option" where
  "FlagGroup_for [] tag j span mem = Some (j, mem)"
| "FlagGroup_for (key # keys) tag j span mem =
     (if strcasecmp_eq key tag then
        (case span_load mem span (j div 8) of
           Some (Byte w) \<Rightarrow>
             (case span_store mem span (j div 8) (Byte (w OR push_bit (j mod 8) 1)) of
                None \<Rightarrow> None
              | Some mem' \<Rightarrow> Some (j, mem'))
         | _ \<Rightarrow> None)
      else FlagGroup_for keys tag (j + 1) span mem)"

lemma take_prefix_at_shorter:
  assumes "s \<noteq> []"
  shows "length (snd (take_prefix_at c s)) < length s"
proof -
  have "0 < length s" using assms by simp
  then show ?thesis
    by (cases "find_char s c") (auto simp: take_prefix_at_def take_prefix_def Let_def min_def)
qed

text \<open>The \<^verbatim>\<open>while (token)\<close> loop (lines 350 to 364); a view converts to \<^verbatim>\<open>true\<close> when it is not empty.\<close>

function FlagGroup_while ::
  "TextView list \<Rightarrow> TextView \<Rightarrow> MemSpan \<Rightarrow> memory \<Rightarrow> diag list \<Rightarrow> (bool \<times> memory \<times> diag list) option" where
  "FlagGroup_while tags token span mem cout =
     (if token \<noteq> [] then
        (let tag = fst (take_prefix_at CHR '';'' token);
             token' = snd (take_prefix_at CHR '';'' token)
         in case FlagGroup_for tags tag 0 span mem of
              None \<Rightarrow> None
            | Some (j, mem') \<Rightarrow>
                if j > length tags then Some (False, mem', cout @ [UnknownTag tag])
                else FlagGroup_while tags token' span mem' cout)
      else Some (True, mem, cout))"
  by pat_completeness auto
termination
  by (relation "measure (\<lambda>(tags, token, span, mem, cout). length token)")
     (simp_all add: take_prefix_at_shorter)

declare FlagGroup_while.simps [simp del]

definition FlagGroupProperty_parse ::
  "TextView list \<Rightarrow> TextView \<Rightarrow> MemSpan \<Rightarrow> memory \<Rightarrow> diag list \<Rightarrow> (bool \<times> memory \<times> diag list) option" where
  "FlagGroupProperty_parse tags token span mem cout =
     (if token = ''-'' then Some (True, mem, cout)
      else case memset_span mem span 0 of
             None \<Rightarrow> None
           | Some mem0 \<Rightarrow> FlagGroup_while tags token span mem0 cout)"

subsection \<open>\<^verbatim>\<open>TagProperty::parse\<close>\<close>

definition find_if :: "('a \<Rightarrow> bool) \<Rightarrow> 'a list \<Rightarrow> nat" where
  \<comment> \<open>\<^verbatim>\<open>std::find_if\<close>, as the distance of its result from \<^verbatim>\<open>begin()\<close>; the length stands for \<^verbatim>\<open>end()\<close>\<close>
  "find_if P xs = length (takeWhile (\<lambda>x. \<not> P x) xs)"

text \<open>
  The result is the return value, the new \<^verbatim>\<open>_tags\<close> and the new memory. The difference
  \<^verbatim>\<open>spot - _tags.begin()\<close> is converted to \<^verbatim>\<open>uint8_t\<close> by the assignment (line 380).
\<close>

definition TagProperty_parse ::
  "TextView \<Rightarrow> MemSpan \<Rightarrow> TextView list \<Rightarrow> memory \<Rightarrow> (bool \<times> TextView list \<times> memory) option" where
  "TagProperty_parse token span tags mem =
     (let spot = find_if (\<lambda>tag. strcasecmp_eq token tag) tags;
          tags' = (if spot = length tags then tags @ [token] else tags);
          spot' = (if spot = length tags then length tags' - 1 else spot)
      in case span_store mem span 0 (Byte (of_nat spot')) of
           None \<Rightarrow> None
         | Some mem' \<Rightarrow> Some (True, tags', mem'))"

subsection \<open>The virtual call \<^verbatim>\<open>col->parse(token, span)\<close>\<close>

definition Property_parse ::
  "Property \<Rightarrow> TextView \<Rightarrow> MemSpan \<Rightarrow> memory \<Rightarrow> diag list \<Rightarrow> (bool \<times> Property \<times> memory \<times> diag list) option" where
  "Property_parse p token span mem cout =
     (case kind p of
        KFlagGroup \<Rightarrow>
          (case FlagGroupProperty_parse (m_tags p) token span mem cout of
             None \<Rightarrow> None
           | Some (r, mem', cout') \<Rightarrow> Some (r, p, mem', cout'))
      | KTag \<Rightarrow>
          (case TagProperty_parse token span (m_tags p) mem of
             None \<Rightarrow> None
           | Some (r, tags', mem') \<Rightarrow> Some (r, p\<lparr>m_tags := tags'\<rparr>, mem', cout))
      | KString \<Rightarrow>
          (case StringProperty_parse token span mem of
             None \<Rightarrow> None
           | Some (r, mem') \<Rightarrow> Some (r, p, mem', cout)))"

section \<open>The table\<close>

text \<open>
  A row keeps the span it was made from and, with it, the block the span points into.
  The range container \<^verbatim>\<open>IPSpace<Row>\<close> is outside the example; \<open>m_space\<close> is the list of
  the calls of \<^verbatim>\<open>mark\<close>, oldest first, each with the text of its range.
\<close>

record Row =
  m_data :: MemSpan
  block :: memory

record Table =
  m_size :: "64 word"
  m_columns :: "Property list"
  m_space :: "(TextView \<times> Row) list"

definition Table_empty :: Table where
  \<comment> \<open>\<^verbatim>\<open>Table() = default\<close>\<close>
  "Table_empty = \<lparr>m_size = 0, m_columns = [], m_space = []\<rparr>"

definition add_column :: "Property \<Rightarrow> Table \<Rightarrow> Table" where
  "add_column col t =
     (let col1 = col\<lparr>m_offset := m_size t\<rparr>;
          col2 = col1\<lparr>m_idx := of_nat (length (m_columns t))\<rparr>
      in t\<lparr>m_size := m_size t + Property_size col2, m_columns := m_columns t @ [col2]\<rparr>)"

definition add_columns :: "Property list \<Rightarrow> Table \<Rightarrow> Table" where
  \<comment> \<open>a sequence of calls of \<^verbatim>\<open>add_column\<close>, first to last\<close>
  "add_columns cols t = foldl (\<lambda>t col. add_column col t) t cols"

definition Row_span_for :: "Row \<Rightarrow> Property \<Rightarrow> MemSpan" where
  "Row_span_for row prop = MemSpan_remove_prefix (unat (m_offset prop)) (m_data row)"

definition FlagGroupProperty_is_set :: "Property \<Rightarrow> nat \<Rightarrow> Row \<Rightarrow> bool option" where
  "FlagGroupProperty_is_set p flag_idx row =
     (let sp = Row_span_for row p
      in case span_load (block row) sp (flag_idx div 8) of
           Some (Byte w) \<Rightarrow> Some (drop_bit (flag_idx mod 8) w AND 1 \<noteq> 0)
         | _ \<Rightarrow> None)"

definition Table_localize :: "TextView \<Rightarrow> TextView" where
  \<comment> \<open>a copy of the characters in the arena: the view returned shows the same text\<close>
  "Table_localize src = src"

text \<open>
  The \<^verbatim>\<open>for\<close> loop over the columns in \<^verbatim>\<open>Table::parse\<close> (lines 259 to 268). The result is
  the columns (a \<^verbatim>\<open>TagProperty\<close> changes its \<^verbatim>\<open>_tags\<close>), the line, the span, the memory
  and the output left.
\<close>

fun parse_columns ::
  "Property list \<Rightarrow> 32 word \<Rightarrow> TextView \<Rightarrow> MemSpan \<Rightarrow> memory \<Rightarrow> diag list
   \<Rightarrow> (Property list \<times> TextView \<times> MemSpan \<times> memory \<times> diag list) option" where
  "parse_columns [] line_no line span mem cout = Some ([], line, span, mem, cout)"
| "parse_columns (col # cols) line_no line span mem cout =
     (let token0 = fst (Table_token line);
          line' = snd (Table_token line);
          token = (if needs_localized_token col then Table_localize token0 else token0)
      in case Property_parse col token \<lparr>ptr = ptr span, count = unat (Property_size col)\<rparr> mem cout of
           None \<Rightarrow> None
         | Some (ok, col', mem', cout') \<Rightarrow>
             (let cout'' = (if \<not> ok then cout' @ [InvalidValue token (m_idx col) line_no] else cout');
                  span' = MemSpan_remove_prefix (unat (Property_size col)) span
              in case parse_columns cols line_no line' span' mem' cout'' of
                   None \<Rightarrow> None
                 | Some (cols', rest) \<Rightarrow> Some (col' # cols', rest)))"

text \<open>
  \<^verbatim>\<open>Table::parse\<close> (lines 246 to 272). \<^verbatim>\<open>IPRange\<close> is declared in \<^verbatim>\<open>swoc/swoc_ip.h\<close>, which
  is not among the sources: \<open>range_empty tok\<close> stands for \<^verbatim>\<open>IPRange{tok}.empty()\<close> and is a
  parameter. The result of the loop is the table and the output; \<open>None\<close> is an access
  outside a row's block.
\<close>

function Table_parse_while ::
  "(TextView \<Rightarrow> bool) \<Rightarrow> TextView \<Rightarrow> 32 word \<Rightarrow> Table \<Rightarrow> diag list \<Rightarrow> (Table \<times> diag list) option" where
  "Table_parse_while range_empty src line_no t cout =
     (if src \<noteq> [] then
        (let line = fst (take_prefix_at CHR 0x0A src);
             src' = snd (take_prefix_at CHR 0x0A src);
             line_no' = line_no + 1;
             range_token = fst (take_prefix_at CHR '','' line);
             line' = snd (take_prefix_at CHR '','' line)
         in if range_empty range_token
            then Table_parse_while range_empty src' line_no' t (cout @ [InvalidRange range_token])
            else (let mem = arena_alloc (unat (m_size t));
                      span = \<lparr>ptr = 0, count = unat (m_size t)\<rparr>
                  in case parse_columns (m_columns t) line_no' line' span mem cout of
                       None \<Rightarrow> None
                     | Some (cols', line'', span', mem', cout') \<Rightarrow>
                         Table_parse_while range_empty src' line_no'
                           (t\<lparr>m_columns := cols',
                              m_space := m_space t @ [(range_token, \<lparr>m_data = span, block = mem'\<rparr>)]\<rparr>)
                           cout'))
      else Some (t, cout))"
  by pat_completeness auto
termination
  by (relation "measure (\<lambda>(range_empty, src, line_no, t, cout). length src)")
     (simp_all add: take_prefix_at_shorter)

declare Table_parse_while.simps [simp del]

definition Table_parse ::
  "(TextView \<Rightarrow> bool) \<Rightarrow> TextView \<Rightarrow> Table \<Rightarrow> diag list \<Rightarrow> (bool \<times> Table \<times> diag list) option" where
  "Table_parse range_empty src t cout =
     (case Table_parse_while range_empty src 0 t cout of
        None \<Rightarrow> None
      | Some (t', cout') \<Rightarrow> Some (True, t', cout'))"

section \<open>Column layout\<close>

lemma add_columns_append:
  "add_columns (cols @ [col]) t = add_column col (add_columns cols t)"
  by (simp add: add_columns_def)

lemma Property_size_update [simp]:
  "Property_size (p\<lparr>m_offset := a\<rparr>) = Property_size p"
  "Property_size (p\<lparr>m_idx := b\<rparr>) = Property_size p"
  by (simp_all add: Property_size_def)

lemma add_columns_layout:
  "length (m_columns (add_columns cols Table_empty)) = length cols
   \<and> m_size (add_columns cols Table_empty) = sum_list (map Property_size cols)
   \<and> (\<forall>i < length cols.
         m_columns (add_columns cols Table_empty) ! i
           = (cols ! i)\<lparr>m_offset := sum_list (map Property_size (take i cols)), m_idx := of_nat i\<rparr>)"
proof (induction cols rule: rev_induct)
  case Nil
  then show ?case by (simp add: add_columns_def Table_empty_def)
next
  case (snoc col cols)
  let ?t = "add_columns cols Table_empty"
  from snoc have len: "length (m_columns ?t) = length cols"
    and sz: "m_size ?t = sum_list (map Property_size cols)"
    and nth: "\<And>i. i < length cols \<Longrightarrow> m_columns ?t ! i
           = (cols ! i)\<lparr>m_offset := sum_list (map Property_size (take i cols)), m_idx := of_nat i\<rparr>"
    by blast+
  have step: "add_columns (cols @ [col]) Table_empty
      = ?t\<lparr>m_size := m_size ?t + Property_size col,
            m_columns := m_columns ?t @ [col\<lparr>m_offset := m_size ?t, m_idx := of_nat (length (m_columns ?t))\<rparr>]\<rparr>"
    by (simp add: add_columns_append add_column_def Let_def)
  show ?case
  proof (intro conjI allI impI)
    show "length (m_columns (add_columns (cols @ [col]) Table_empty)) = length (cols @ [col])"
      by (simp add: step len)
    show "m_size (add_columns (cols @ [col]) Table_empty) = sum_list (map Property_size (cols @ [col]))"
      by (simp add: step sz)
    fix i assume i: "i < length (cols @ [col])"
    show "m_columns (add_columns (cols @ [col]) Table_empty) ! i
           = ((cols @ [col]) ! i)\<lparr>m_offset := sum_list (map Property_size (take i (cols @ [col]))), m_idx := of_nat i\<rparr>"
    proof (cases "i < length cols")
      case True
      then show ?thesis by (simp add: step len nth nth_append)
    next
      case False
      then have "i = length cols" using i by simp
      then show ?thesis by (simp add: step len sz nth_append)
    qed
  qed
qed


lemma unat_sum_list:
  fixes f :: "'a \<Rightarrow> 64 word"
  assumes "sum_list (map (\<lambda>x. unat (f x)) xs) < 2 ^ 64"
  shows "unat (sum_list (map f xs)) = sum_list (map (\<lambda>x. unat (f x)) xs)"
  using assms
proof (induction xs)
  case Nil
  then show ?case by simp
next
  case (Cons x xs)
  then have IH: "unat (sum_list (map f xs)) = sum_list (map (\<lambda>x. unat (f x)) xs)"
    by simp
  have "unat (f x) + unat (sum_list (map f xs)) < 2 ^ LENGTH(64)"
    using Cons.prems IH by simp
  then have "unat (f x + sum_list (map f xs)) = unat (f x) + unat (sum_list (map f xs))"
    by (simp only: unat_add_lem)
  then show ?case using IH by simp
qed

lemma sum_list_take_le:
  fixes g :: "'a \<Rightarrow> nat"
  shows "sum_list (map g (take i xs)) \<le> sum_list (map g xs)"
proof -
  have "sum_list (map g xs) = sum_list (map g (take i xs)) + sum_list (map g (drop i xs))"
    by (metis append_take_drop_id map_append sum_list.append)
  then show ?thesis by simp
qed

text \<open>
  C1. After any sequence of \<^verbatim>\<open>add_column\<close> calls on a new table, the \<open>i\<close>-th column
  registered is the \<open>i\<close>-th column of the table, unchanged but for its index, which is
  \<open>i\<close>, and its offset, which is the sum of the sizes of the columns before it; the
  offset of a column is the offset of the one before it plus that one's size; and the
  row size of the table is the sum of the sizes of all columns. The index is an
  \<^verbatim>\<open>unsigned\<close> and the offsets and the row size are \<^verbatim>\<open>size_t\<close>: the equations hold in the
  arithmetic of these types, and they hold of the numbers themselves for an index
  below \<open>2 ^ 32\<close> and sizes that add up to less than \<open>2 ^ 64\<close>.
\<close>

theorem add_column_layout:
  "length (m_columns (add_columns cols Table_empty)) = length cols
   \<and> (\<forall>i < length cols.
        m_columns (add_columns cols Table_empty) ! i
          = (cols ! i)\<lparr>m_offset := sum_list (map Property_size (take i cols)), m_idx := of_nat i\<rparr>
        \<and> m_idx (m_columns (add_columns cols Table_empty) ! i) = of_nat i
        \<and> (i < 2 ^ 32 \<longrightarrow> unat (m_idx (m_columns (add_columns cols Table_empty) ! i)) = i)
        \<and> m_offset (m_columns (add_columns cols Table_empty) ! i)
            = sum_list (map Property_size (take i (m_columns (add_columns cols Table_empty))))
        \<and> (sum_list (map (\<lambda>c. unat (Property_size c)) cols) < 2 ^ 64 \<longrightarrow>
            unat (m_offset (m_columns (add_columns cols Table_empty) ! i))
              = sum_list (map (\<lambda>c. unat (Property_size c)) (take i cols))))
   \<and> (\<forall>i. Suc i < length cols \<longrightarrow>
        m_offset (m_columns (add_columns cols Table_empty) ! Suc i)
          = m_offset (m_columns (add_columns cols Table_empty) ! i)
            + Property_size (m_columns (add_columns cols Table_empty) ! i))
   \<and> m_size (add_columns cols Table_empty)
        = sum_list (map Property_size (m_columns (add_columns cols Table_empty)))
   \<and> (sum_list (map (\<lambda>c. unat (Property_size c)) cols) < 2 ^ 64 \<longrightarrow>
        unat (m_size (add_columns cols Table_empty))
          = sum_list (map (\<lambda>c. unat (Property_size c)) cols))"
proof -
  let ?t = "add_columns cols Table_empty"
  note L = add_columns_layout [of cols]
  from L have len: "length (m_columns ?t) = length cols" by blast
  from L have sz: "m_size ?t = sum_list (map Property_size cols)" by blast
  from L have nth: "\<And>i. i < length cols \<Longrightarrow> m_columns ?t ! i
      = (cols ! i)\<lparr>m_offset := sum_list (map Property_size (take i cols)), m_idx := of_nat i\<rparr>"
    by blast
  have sizes: "map Property_size (m_columns ?t) = map Property_size cols"
    by (rule nth_equalityI) (simp_all add: len nth)
  have off: "m_offset (m_columns ?t ! i) = sum_list (map Property_size (take i cols))"
    if "i < length cols" for i using nth [OF that] by simp
  have idx: "m_idx (m_columns ?t ! i) = of_nat i" if "i < length cols" for i
    using nth [OF that] by simp
  have idx_nat: "unat (m_idx (m_columns ?t ! i)) = i" if "i < length cols" "i < 2 ^ 32" for i
    using idx [OF that(1)] that(2) by (simp add: unat_of_nat)
  have off2: "m_offset (m_columns ?t ! i) = sum_list (map Property_size (take i (m_columns ?t)))"
    if "i < length cols" for i
    using off [OF that] sizes by (simp add: take_map [symmetric])
  have off_nat: "unat (m_offset (m_columns ?t ! i))
      = sum_list (map (\<lambda>c. unat (Property_size c)) (take i cols))"
    if "i < length cols" "sum_list (map (\<lambda>c. unat (Property_size c)) cols) < 2 ^ 64" for i
  proof -
    have "sum_list (map (\<lambda>c. unat (Property_size c)) (take i cols)) < 2 ^ 64"
      using sum_list_take_le [of "\<lambda>c. unat (Property_size c)" i cols] that(2) by simp
    then show ?thesis using off [OF that(1)] by (simp add: unat_sum_list)
  qed
  have step: "m_offset (m_columns ?t ! Suc i)
      = m_offset (m_columns ?t ! i) + Property_size (m_columns ?t ! i)"
    if "Suc i < length cols" for i
  proof -
    have i: "i < length cols" using that by simp
    have "take (Suc i) cols = take i cols @ [cols ! i]"
      using i by (simp add: take_Suc_conv_app_nth)
    then show ?thesis using off [OF that] off [OF i] nth [OF i] by simp
  qed
  have sz2: "m_size ?t = sum_list (map Property_size (m_columns ?t))"
    using sz sizes by simp
  have sz_nat: "unat (m_size ?t) = sum_list (map (\<lambda>c. unat (Property_size c)) cols)"
    if "sum_list (map (\<lambda>c. unat (Property_size c)) cols) < 2 ^ 64"
    using that sz by (simp add: unat_sum_list)
  show ?thesis
    using len nth idx idx_nat off2 off_nat step sz2 sz_nat by blast
qed


definition example_columns :: "Property list" where
  "example_columns =
     [TagProperty ''owner'', TagProperty ''colo'',
      FlagGroupProperty ''flags'' [''prod'', ''dmz'', ''internal''],
      StringProperty ''Description'']"

lemmas Property_defs =
  TagProperty_def FlagGroupProperty_def StringProperty_def Property_size_def
  TagProperty_SIZE_def FlagGroupProperty_SIZE_def StringProperty_SIZE_def

theorem add_column_layout_witness:
  "length example_columns = 4
   \<and> sum_list (map (\<lambda>c. unat (Property_size c)) example_columns) < 2 ^ 64
   \<and> unat (m_idx (m_columns (add_columns example_columns Table_empty) ! 3)) = 3
   \<and> unat (m_offset (m_columns (add_columns example_columns Table_empty) ! 3)) = 3
   \<and> m_offset (m_columns (add_columns example_columns Table_empty) ! 3)
       = m_offset (m_columns (add_columns example_columns Table_empty) ! 2)
         + Property_size (m_columns (add_columns example_columns Table_empty) ! 2)
   \<and> unat (m_size (add_columns example_columns Table_empty)) = 19"
proof -
  have len: "length example_columns = 4"
    by (simp add: example_columns_def)
  have total: "sum_list (map (\<lambda>c. unat (Property_size c)) example_columns) = 19"
    by (simp add: example_columns_def Property_defs)
  have upto3: "sum_list (map (\<lambda>c. unat (Property_size c)) (take 3 example_columns)) = 3"
    by (simp add: example_columns_def Property_defs)
  have i3: "(3::nat) < length example_columns" "(3::nat) < 2 ^ 32" "Suc 2 < length example_columns"
    by (simp_all add: len)
  have lt: "sum_list (map (\<lambda>c. unat (Property_size c)) example_columns) < 2 ^ 64"
    by (simp add: total)
  note L = add_column_layout [of example_columns]
  from L i3 have "unat (m_idx (m_columns (add_columns example_columns Table_empty) ! 3)) = 3"
    by blast
  moreover from L i3(1) lt
  have "unat (m_offset (m_columns (add_columns example_columns Table_empty) ! 3))
        = sum_list (map (\<lambda>c. unat (Property_size c)) (take 3 example_columns))"
    by blast
  moreover from L i3(3)
  have "m_offset (m_columns (add_columns example_columns Table_empty) ! Suc 2)
       = m_offset (m_columns (add_columns example_columns Table_empty) ! 2)
         + Property_size (m_columns (add_columns example_columns Table_empty) ! 2)"
    by blast
  moreover from L lt
  have "unat (m_size (add_columns example_columns Table_empty))
        = sum_list (map (\<lambda>c. unat (Property_size c)) example_columns)"
    by blast
  ultimately show ?thesis
    using len lt total upto3 by (simp add: numeral_3_eq_3)
qed

section \<open>The dictionary of a \<^verbatim>\<open>TagProperty\<close>\<close>

text \<open>
  The tokens of one \<^verbatim>\<open>TagProperty\<close> column over successive rows: each token is parsed
  into the column's byte of a row of its own, and the column keeps its \<^verbatim>\<open>_tags\<close> from
  one call to the next. The result is the byte stored for each token and the
  dictionary left.
\<close>

fun Tag_run :: "TextView list \<Rightarrow> TextView list \<Rightarrow> (mbyte list \<times> TextView list) option" where
  "Tag_run [] tags = Some ([], tags)"
| "Tag_run (tok # toks) tags =
     (case TagProperty_parse tok \<lparr>ptr = 0, count = unat TagProperty_SIZE\<rparr> tags
             (arena_alloc (unat TagProperty_SIZE)) of
        None \<Rightarrow> None
      | Some (ok, tags', mem') \<Rightarrow>
          (case Tag_run toks tags' of
             None \<Rightarrow> None
           | Some (bs, tags'') \<Rightarrow> Some (mem' ! 0 # bs, tags'')))"

lemma find_if_le: "find_if P xs \<le> length xs"
  by (simp add: find_if_def length_takeWhile_le)

lemma find_if_found: "find_if P xs < length xs \<longleftrightarrow> (\<exists>x \<in> set xs. P x)"
  by (induction xs) (auto simp: find_if_def)

lemma find_if_end: "find_if P xs = length xs \<longleftrightarrow> (\<forall>x \<in> set xs. \<not> P x)"
  using find_if_found [of P xs] find_if_le [of P xs] by auto

lemma find_if_append: "\<exists>x \<in> set xs. P x \<Longrightarrow> find_if P (xs @ ys) = find_if P xs"
  by (induction xs) (auto simp: find_if_def)

lemma find_if_snoc: "\<forall>x \<in> set xs. \<not> P x \<Longrightarrow> P y \<Longrightarrow> find_if P (xs @ y # ys) = length xs"
  by (induction xs) (auto simp: find_if_def)

lemma strcasecmp_eq_cong: "strcasecmp_eq a b \<Longrightarrow> strcasecmp_eq a = strcasecmp_eq b"
  by (auto simp: strcasecmp_eq_def fun_eq_iff)

lemma strcasecmp_eq_refl: "strcasecmp_eq a a"
  by (simp add: strcasecmp_eq_def)

lemma TagProperty_parse_step:
  assumes "ptr sp < length mem"
  shows "TagProperty_parse tok sp tags mem
    = Some (True,
            (if find_if (strcasecmp_eq tok) tags = length tags then tags @ [tok] else tags),
            mem[ptr sp := Byte (of_nat (find_if (strcasecmp_eq tok) tags))])"
  using assms by (simp add: TagProperty_parse_def span_store_def Let_def)

text \<open>The dictionary after one more token, and the index the token gets.\<close>

definition Tag_next :: "TextView \<Rightarrow> TextView list \<Rightarrow> TextView list" where
  "Tag_next tok tags = (if find_if (strcasecmp_eq tok) tags = length tags then tags @ [tok] else tags)"

lemma Tag_run_Cons:
  "Tag_run (tok # toks) tags =
     (case Tag_run toks (Tag_next tok tags) of
        None \<Rightarrow> None
      | Some (bs, tags'') \<Rightarrow> Some (Byte (of_nat (find_if (strcasecmp_eq tok) tags)) # bs, tags''))"
proof -
  have "TagProperty_parse tok \<lparr>ptr = 0, count = unat TagProperty_SIZE\<rparr> tags
          (arena_alloc (unat TagProperty_SIZE))
        = Some (True, Tag_next tok tags, [Byte (of_nat (find_if (strcasecmp_eq tok) tags))])"
    by (simp add: TagProperty_parse_step TagProperty_SIZE_def arena_alloc_def Tag_next_def)
  then show ?thesis by (simp split: option.splits)
qed

declare Tag_run.simps(2) [simp del]

lemma Tag_next_found:
  "\<exists>x \<in> set tags. P x \<Longrightarrow> find_if P (Tag_next tok tags) = find_if P tags"
  by (auto simp: Tag_next_def find_if_append)

lemma Tag_next_self:
  "find_if (strcasecmp_eq tok) (Tag_next tok tags) = find_if (strcasecmp_eq tok) tags"
proof (cases "find_if (strcasecmp_eq tok) tags = length tags")
  case True
  then have "\<forall>x \<in> set tags. \<not> strcasecmp_eq tok x" by (simp add: find_if_end)
  then have "find_if (strcasecmp_eq tok) (tags @ [tok]) = length tags"
    by (rule find_if_snoc) (rule strcasecmp_eq_refl)
  then show ?thesis using True by (simp add: Tag_next_def)
next
  case False
  then show ?thesis by (simp add: Tag_next_def)
qed

lemma Tag_next_self_found: "\<exists>x \<in> set (Tag_next tok tags). strcasecmp_eq tok x"
  by (auto simp: Tag_next_def find_if_end strcasecmp_eq_refl)

lemma Tag_next_set: "set tags \<subseteq> set (Tag_next tok tags)"
  by (auto simp: Tag_next_def)

lemma Tag_run_total: "\<exists>bs tags'. Tag_run toks tags = Some (bs, tags') \<and> length bs = length toks"
proof (induction toks arbitrary: tags)
  case Nil
  then show ?case by simp
next
  case (Cons tok toks)
  from Cons.IH [of "Tag_next tok tags"] show ?case
    by (auto simp: Tag_run_Cons)
qed

lemma Tag_run_append:
  "Tag_run (xs @ ys) tags =
     (case Tag_run xs tags of
        None \<Rightarrow> None
      | Some (b1, t1) \<Rightarrow>
          (case Tag_run ys t1 of None \<Rightarrow> None | Some (b2, t2) \<Rightarrow> Some (b1 @ b2, t2)))"
proof (induction xs arbitrary: tags)
  case Nil
  then show ?case by (auto split: option.splits)
next
  case (Cons x xs)
  show ?case
    by (simp add: Tag_run_Cons Cons.IH split: option.splits)
qed

text \<open>A class that is in the dictionary keeps its index, whatever is parsed next.\<close>

lemma Tag_run_keeps_index:
  assumes "\<exists>x \<in> set tags. strcasecmp_eq tok x"
    and "Tag_run ys tags = Some (bs, tags')"
    and "k < length ys" and "strcasecmp_eq tok (ys ! k)"
  shows "bs ! k = Byte (of_nat (find_if (strcasecmp_eq tok) tags))"
  using assms
proof (induction ys arbitrary: tags bs k)
  case Nil
  then show ?case by simp
next
  case (Cons y ys)
  from Cons.prems(2) obtain bs0 where run: "Tag_run ys (Tag_next y tags) = Some (bs0, tags')"
    and bs: "bs = Byte (of_nat (find_if (strcasecmp_eq y) tags)) # bs0"
    by (auto simp: Tag_run_Cons split: option.splits)
  show ?case
  proof (cases k)
    case 0
    then have "strcasecmp_eq tok y"
      using Cons.prems(4) by simp
    then have "strcasecmp_eq tok = strcasecmp_eq y"
      by (rule strcasecmp_eq_cong)
    then show ?thesis using bs 0 by simp
  next
    case (Suc k')
    have found: "\<exists>x \<in> set (Tag_next y tags). strcasecmp_eq tok x"
      using Cons.prems(1) Tag_next_set [of tags y] by blast
    have "bs0 ! k' = Byte (of_nat (find_if (strcasecmp_eq tok) (Tag_next y tags)))"
      using Cons.IH [OF found run] Cons.prems(3,4) Suc by simp
    then show ?thesis
      using bs Suc Cons.prems(1) by (simp add: Tag_next_found)
  qed
qed

text \<open>The dictionary holds one token of each class seen, and no class twice.\<close>

lemma Tag_next_classes:
  assumes "distinct (map (map tolower) tags)"
  shows "distinct (map (map tolower) (Tag_next tok tags))"
    and "set (map (map tolower) (Tag_next tok tags)) = insert (map tolower tok) (set (map (map tolower) tags))"
proof -
  have in_iff: "map tolower tok \<in> set (map (map tolower) tags)
      \<longleftrightarrow> find_if (strcasecmp_eq tok) tags \<noteq> length tags"
    by (auto simp: find_if_end strcasecmp_eq_def)
  show "distinct (map (map tolower) (Tag_next tok tags))"
    using assms in_iff by (simp add: Tag_next_def)
  show "set (map (map tolower) (Tag_next tok tags))
      = insert (map tolower tok) (set (map (map tolower) tags))"
    using in_iff by (auto simp: Tag_next_def)
qed


lemma Tag_run_classes:
  assumes "distinct (map (map tolower) tags)" and "Tag_run toks tags = Some (bs, tags')"
  shows "distinct (map (map tolower) tags')
     \<and> set (map (map tolower) tags') = set (map (map tolower) tags) \<union> map tolower ` set toks"
  using assms
proof (induction toks arbitrary: tags bs)
  case Nil
  then show ?case by simp
next
  case (Cons tok toks)
  from Cons.prems(2) obtain bs0 where run: "Tag_run toks (Tag_next tok tags) = Some (bs0, tags')"
    by (auto simp: Tag_run_Cons split: option.splits)
  note n = Tag_next_classes [OF Cons.prems(1), of tok]
  from Cons.IH [OF n(1) run] n(2) show ?case by auto
qed

text \<open>A token of a class not seen before gets the number of classes seen before it.\<close>

lemma Tag_run_new_index:
  assumes "Tag_run toks [] = Some (bs, tags')" and "j < length toks"
    and "\<forall>i < j. \<not> strcasecmp_eq (toks ! i) (toks ! j)"
  shows "bs ! j = Byte (of_nat (card (map tolower ` set (take j toks))))"
proof -
  have toks: "toks = take j toks @ toks ! j # drop (Suc j) toks"
    using assms(2) by (simp add: id_take_nth_drop)
  obtain b1 t1 where r1: "Tag_run (take j toks) [] = Some (b1, t1)" and l1: "length b1 = j"
    using Tag_run_total [of "take j toks" "[]"] assms(2) by auto
  have c1: "distinct (map (map tolower) t1)"
    "set (map (map tolower) t1) = map tolower ` set (take j toks)"
    using Tag_run_classes [OF _ r1] by simp_all
  then have len: "length t1 = card (map tolower ` set (take j toks))"
    by (metis distinct_card length_map)
  have "map tolower (toks ! j) \<notin> map tolower ` set (take j toks)"
  proof
    assume "map tolower (toks ! j) \<in> map tolower ` set (take j toks)"
    then obtain x where x: "x \<in> set (take j toks)" "map tolower (toks ! j) = map tolower x"
      by blast
    then obtain i where "i < j" "x = toks ! i"
      using assms(2) by (auto simp: in_set_conv_nth)
    then show False using assms(3) x(2) by (auto simp: strcasecmp_eq_def)
  qed
  then have "\<forall>x \<in> set t1. \<not> strcasecmp_eq (toks ! j) x"
    using c1(2) by (auto simp: strcasecmp_eq_def)
  then have new: "find_if (strcasecmp_eq (toks ! j)) t1 = length t1"
    by (simp add: find_if_end)
  have "Tag_run toks [] = Tag_run (take j toks @ toks ! j # drop (Suc j) toks) []"
    using toks by simp
  then obtain b2 where "bs = b1 @ Byte (of_nat (find_if (strcasecmp_eq (toks ! j)) t1)) # b2"
    using assms(1) r1 by (auto simp: Tag_run_append Tag_run_Cons split: option.splits)
  then show ?thesis using l1 new len by (simp add: nth_append)
qed

text \<open>Two tokens of one class get the same byte.\<close>

lemma Tag_run_same_index:
  assumes "Tag_run toks [] = Some (bs, tags')" and "i < j" and "j < length toks"
    and "strcasecmp_eq (toks ! i) (toks ! j)"
  shows "bs ! i = bs ! j"
proof -
  define ys where "ys = drop (Suc i) toks"
  have i: "i < length toks" using assms(2,3) by simp
  have toks: "toks = take i toks @ toks ! i # ys"
    using i by (simp add: id_take_nth_drop ys_def)
  obtain b1 t1 where r1: "Tag_run (take i toks) [] = Some (b1, t1)" and l1: "length b1 = i"
    using Tag_run_total [of "take i toks" "[]"] i by auto
  have "Tag_run toks [] = Tag_run (take i toks @ toks ! i # ys) []"
    using toks by simp
  then obtain b2 where r2: "Tag_run ys (Tag_next (toks ! i) t1) = Some (b2, tags')"
    and bs: "bs = b1 @ Byte (of_nat (find_if (strcasecmp_eq (toks ! i)) t1)) # b2"
    using assms(1) r1 by (auto simp: Tag_run_append Tag_run_Cons split: option.splits)
  have k: "j - Suc i < length ys" "ys ! (j - Suc i) = toks ! j"
    using assms(2,3) by (simp_all add: ys_def)
  have "b2 ! (j - Suc i)
      = Byte (of_nat (find_if (strcasecmp_eq (toks ! i)) (Tag_next (toks ! i) t1)))"
    using Tag_run_keeps_index [OF Tag_next_self_found r2 k(1)] assms(4) k(2) by simp
  then have "b2 ! (j - Suc i) = Byte (of_nat (find_if (strcasecmp_eq (toks ! i)) t1))"
    by (simp add: Tag_next_self)
  moreover have "bs ! j = b2 ! (j - Suc i)"
    using bs l1 assms(2) by (simp add: nth_append nth_Cons')
  moreover have "bs ! i = Byte (of_nat (find_if (strcasecmp_eq (toks ! i)) t1))"
    using bs l1 by (simp add: nth_append)
  ultimately show ?thesis by simp
qed


lemma Tag_run_length_dictionary:
  assumes "Tag_run toks [] = Some (bs, tags)"
  shows "length tags = card (map tolower ` set toks)"
proof -
  have "distinct (map (map tolower) tags)" and "set (map (map tolower) tags) = map tolower ` set toks"
    using Tag_run_classes [OF _ assms] by simp_all
  then have "card (map tolower ` set toks) = length (map (map tolower) tags)"
    using distinct_card [of "map (map tolower) tags"] by simp
  then show ?thesis by simp
qed

lemma strcasecmp_eq_sym: "strcasecmp_eq a b \<Longrightarrow> strcasecmp_eq b a"
  by (simp add: strcasecmp_eq_def)

lemma Property_parse_tags:
  assumes "Property_parse p tok sp mem cout = Some (r, p', mem', cout')"
  shows "p' = (case kind p of KTag \<Rightarrow> p\<lparr>m_tags := Tag_next tok (m_tags p)\<rparr> | _ \<Rightarrow> p)"
proof (cases "kind p")
  case KTag
  then obtain tags' where t: "TagProperty_parse tok sp (m_tags p) mem = Some (r, tags', mem')"
    and p': "p' = p\<lparr>m_tags := tags'\<rparr>"
    using assms by (auto simp: Property_parse_def split: option.splits)
  from t have "tags' = Tag_next tok (m_tags p)"
    by (auto simp: TagProperty_parse_def Tag_next_def Let_def split: option.splits)
  then show ?thesis using KTag p' by simp
next
  case KFlagGroup
  then show ?thesis using assms by (auto simp: Property_parse_def split: option.splits)
next
  case KString
  then show ?thesis using assms by (auto simp: Property_parse_def split: option.splits)
qed

text \<open>The dictionary only grows at its end.\<close>

lemma Tag_run_extends:
  assumes "Tag_run ys tags = Some (bs, tags')"
  shows "\<exists>ext. tags' = tags @ ext"
  using assms
proof (induction ys arbitrary: tags bs)
  case Nil
  then show ?case by simp
next
  case (Cons y ys)
  from Cons.prems obtain bs0 where run: "Tag_run ys (Tag_next y tags) = Some (bs0, tags')"
    by (auto simp: Tag_run_Cons split: option.splits)
  from Cons.IH [OF run] obtain ext where "tags' = Tag_next y tags @ ext" by blast
  then show ?case by (auto simp: Tag_next_def split: if_splits)
qed

text \<open>
  Every token is in the dictionary left, and the byte stored for it is its position
  there, converted to \<^verbatim>\<open>uint8_t\<close>. The position is the one it had when it was parsed.
\<close>

lemma Tag_run_position:
  assumes "Tag_run toks [] = Some (bs, tags)" and "j < length toks"
  shows "\<exists>b1 t1 ext. Tag_run (take j toks) [] = Some (b1, t1)
           \<and> tags = Tag_next (toks ! j) t1 @ ext
           \<and> find_if (strcasecmp_eq (toks ! j)) tags = find_if (strcasecmp_eq (toks ! j)) t1
           \<and> find_if (strcasecmp_eq (toks ! j)) tags < length tags
           \<and> bs ! j = Byte (of_nat (find_if (strcasecmp_eq (toks ! j)) tags))"
proof -
  let ?P = "strcasecmp_eq (toks ! j)"
  have toks: "toks = take j toks @ toks ! j # drop (Suc j) toks"
    using assms(2) by (simp add: id_take_nth_drop)
  obtain b1 t1 where r1: "Tag_run (take j toks) [] = Some (b1, t1)" and l1: "length b1 = j"
    using Tag_run_total [of "take j toks" "[]"] assms(2) by auto
  have "Tag_run toks [] = Tag_run (take j toks @ toks ! j # drop (Suc j) toks) []"
    using toks by simp
  then obtain b2 where r2: "Tag_run (drop (Suc j) toks) (Tag_next (toks ! j) t1) = Some (b2, tags)"
    and bs: "bs = b1 @ Byte (of_nat (find_if ?P t1)) # b2"
    using assms(1) r1 by (auto simp: Tag_run_append Tag_run_Cons split: option.splits)
  from Tag_run_extends [OF r2] obtain ext where ext: "tags = Tag_next (toks ! j) t1 @ ext"
    by blast
  have found: "\<exists>x \<in> set (Tag_next (toks ! j) t1). ?P x"
    by (rule Tag_next_self_found)
  have "find_if ?P tags = find_if ?P (Tag_next (toks ! j) t1)"
    unfolding ext using found by (rule find_if_append)
  then have pos: "find_if ?P tags = find_if ?P t1"
    by (simp add: Tag_next_self)
  have "\<exists>x \<in> set tags. ?P x"
    using found ext by auto
  then have lt: "find_if ?P tags < length tags"
    by (simp add: find_if_found)
  have "bs ! j = Byte (of_nat (find_if ?P t1))"
    using bs l1 by (simp add: nth_append)
  then show ?thesis using r1 ext pos lt by auto
qed

lemma Tag_run_new_position:
  assumes "Tag_run toks [] = Some (bs, tags)" and "j < length toks"
    and "\<forall>i < j. \<not> strcasecmp_eq (toks ! i) (toks ! j)"
  shows "find_if (strcasecmp_eq (toks ! j)) tags = card (map tolower ` set (take j toks))"
    and "tags ! card (map tolower ` set (take j toks)) = toks ! j"
proof -
  let ?P = "strcasecmp_eq (toks ! j)"
  from Tag_run_position [OF assms(1,2)]
  obtain b1 t1 ext where r1: "Tag_run (take j toks) [] = Some (b1, t1)"
    and ext: "tags = Tag_next (toks ! j) t1 @ ext"
    and pos: "find_if ?P tags = find_if ?P t1"
    by blast
  have len: "length t1 = card (map tolower ` set (take j toks))"
    using Tag_run_length_dictionary [OF r1] .
  have c1: "set (map (map tolower) t1) = map tolower ` set (take j toks)"
    using Tag_run_classes [OF _ r1] by simp
  have "map tolower (toks ! j) \<notin> map tolower ` set (take j toks)"
  proof
    assume "map tolower (toks ! j) \<in> map tolower ` set (take j toks)"
    then obtain x where x: "x \<in> set (take j toks)" "map tolower (toks ! j) = map tolower x"
      by blast
    then obtain i where "i < j" "x = toks ! i"
      using assms(2) by (auto simp: in_set_conv_nth)
    then show False using assms(3) x(2) by (auto simp: strcasecmp_eq_def)
  qed
  then have "\<forall>x \<in> set t1. \<not> ?P x"
    using c1 by (auto simp: strcasecmp_eq_def)
  then have new: "find_if ?P t1 = length t1"
    by (simp add: find_if_end)
  show "find_if ?P tags = card (map tolower ` set (take j toks))"
    using pos new len by simp
  have "Tag_next (toks ! j) t1 = t1 @ [toks ! j]"
    using new by (simp add: Tag_next_def)
  then have "tags = t1 @ toks ! j # ext"
    using ext by simp
  then have "tags ! length t1 = toks ! j"
    by simp
  then show "tags ! card (map tolower ` set (take j toks)) = toks ! j"
    using len by simp
qed

text \<open>
  C5, as amended. On one \<^verbatim>\<open>TagProperty\<close> column, starting with an empty dictionary, for
  every sequence of tokens: every token is in the dictionary left, and the byte stored
  for it is its index there converted to \<^verbatim>\<open>uint8_t\<close>; two tokens equal without regard to
  case have the same index and the same byte; a token different (without regard to
  case) from all tokens before it is appended to the dictionary at the next unused
  index, which is the number of distinct tokens seen before it, and the byte stored is
  that number modulo 256 (the number itself below 256); the dictionary ends with one
  entry for each distinct token. The dictionary belongs to the column: a call of
  \<^verbatim>\<open>parse\<close> on a property changes nothing but the \<^verbatim>\<open>_tags\<close> of that property when it is a
  \<^verbatim>\<open>TagProperty\<close>, from its own token, and nothing at all otherwise.
\<close>

theorem TagProperty_dictionary:
  "(\<exists>bs tags. Tag_run toks [] = Some (bs, tags) \<and> length bs = length toks
      \<and> (\<forall>j. j < length toks \<longrightarrow>
             find_if (strcasecmp_eq (toks ! j)) tags < length tags
             \<and> bs ! j = Byte (of_nat (find_if (strcasecmp_eq (toks ! j)) tags)))
      \<and> (\<forall>i j. i < length toks \<and> j < length toks \<and> strcasecmp_eq (toks ! i) (toks ! j)
             \<longrightarrow> find_if (strcasecmp_eq (toks ! i)) tags = find_if (strcasecmp_eq (toks ! j)) tags
                 \<and> bs ! i = bs ! j)
      \<and> (\<forall>j. j < length toks \<and> (\<forall>i < j. \<not> strcasecmp_eq (toks ! i) (toks ! j)) \<longrightarrow>
             find_if (strcasecmp_eq (toks ! j)) tags = card (map tolower ` set (take j toks))
             \<and> tags ! card (map tolower ` set (take j toks)) = toks ! j
             \<and> bs ! j = Byte (of_nat (card (map tolower ` set (take j toks))))
             \<and> (\<exists>w. bs ! j = Byte w
                    \<and> unat w = card (map tolower ` set (take j toks)) mod 256)
             \<and> (card (map tolower ` set (take j toks)) < 256 \<longrightarrow>
                  (\<exists>w. bs ! j = Byte w \<and> unat w = card (map tolower ` set (take j toks)))))
      \<and> length tags = card (map tolower ` set toks))
   \<and> (\<forall>p tok sp mem cout r p' mem' cout'.
         Property_parse p tok sp mem cout = Some (r, p', mem', cout') \<longrightarrow>
         p' = (case kind p of KTag \<Rightarrow> p\<lparr>m_tags := Tag_next tok (m_tags p)\<rparr> | _ \<Rightarrow> p))"
proof -
  obtain bs tags where run: "Tag_run toks [] = Some (bs, tags)" and len: "length bs = length toks"
    using Tag_run_total [of toks "[]"] by blast
  have every: "find_if (strcasecmp_eq (toks ! j)) tags < length tags
      \<and> bs ! j = Byte (of_nat (find_if (strcasecmp_eq (toks ! j)) tags))"
    if "j < length toks" for j
    using Tag_run_position [OF run that] by blast
  have same: "find_if (strcasecmp_eq (toks ! i)) tags = find_if (strcasecmp_eq (toks ! j)) tags
      \<and> bs ! i = bs ! j"
    if "i < length toks" "j < length toks" "strcasecmp_eq (toks ! i) (toks ! j)" for i j
  proof -
    have "strcasecmp_eq (toks ! i) = strcasecmp_eq (toks ! j)"
      using that(3) by (rule strcasecmp_eq_cong)
    then show ?thesis using every [OF that(1)] every [OF that(2)] by simp
  qed
  have new: "find_if (strcasecmp_eq (toks ! j)) tags = card (map tolower ` set (take j toks))
      \<and> tags ! card (map tolower ` set (take j toks)) = toks ! j
      \<and> bs ! j = Byte (of_nat (card (map tolower ` set (take j toks))))
      \<and> (\<exists>w. bs ! j = Byte w \<and> unat w = card (map tolower ` set (take j toks)) mod 256)
      \<and> (card (map tolower ` set (take j toks)) < 256 \<longrightarrow>
            (\<exists>w. bs ! j = Byte w \<and> unat w = card (map tolower ` set (take j toks))))"
    if j: "j < length toks" and n: "\<forall>i < j. \<not> strcasecmp_eq (toks ! i) (toks ! j)" for j
  proof -
    let ?c = "card (map tolower ` set (take j toks))"
    note p = Tag_run_new_position [OF run j n]
    have b: "bs ! j = Byte (of_nat ?c)"
      using every [OF j] p(1) by simp
    have u: "unat (of_nat ?c :: 8 word) = ?c mod 256"
      by (simp add: unat_of_nat)
    have u': "unat (of_nat ?c :: 8 word) = ?c" if "?c < 256"
      using that u by simp
    show ?thesis using p b u u' by blast
  qed
  have dict: "length tags = card (map tolower ` set toks)"
    using Tag_run_length_dictionary [OF run] .
  have first: "\<exists>bs tags. Tag_run toks [] = Some (bs, tags) \<and> length bs = length toks
      \<and> (\<forall>j. j < length toks \<longrightarrow>
             find_if (strcasecmp_eq (toks ! j)) tags < length tags
             \<and> bs ! j = Byte (of_nat (find_if (strcasecmp_eq (toks ! j)) tags)))
      \<and> (\<forall>i j. i < length toks \<and> j < length toks \<and> strcasecmp_eq (toks ! i) (toks ! j)
             \<longrightarrow> find_if (strcasecmp_eq (toks ! i)) tags = find_if (strcasecmp_eq (toks ! j)) tags
                 \<and> bs ! i = bs ! j)
      \<and> (\<forall>j. j < length toks \<and> (\<forall>i < j. \<not> strcasecmp_eq (toks ! i) (toks ! j)) \<longrightarrow>
             find_if (strcasecmp_eq (toks ! j)) tags = card (map tolower ` set (take j toks))
             \<and> tags ! card (map tolower ` set (take j toks)) = toks ! j
             \<and> bs ! j = Byte (of_nat (card (map tolower ` set (take j toks))))
             \<and> (\<exists>w. bs ! j = Byte w
                    \<and> unat w = card (map tolower ` set (take j toks)) mod 256)
             \<and> (card (map tolower ` set (take j toks)) < 256 \<longrightarrow>
                  (\<exists>w. bs ! j = Byte w \<and> unat w = card (map tolower ` set (take j toks)))))
      \<and> length tags = card (map tolower ` set toks)"
    using run len every same new dict by blast
  show ?thesis
    using first Property_parse_tags by blast
qed

definition example_tokens :: "TextView list" where
  "example_tokens = [''asf'', ''ASF'', ''cmi'', ''Asf'', ''ind'']"

theorem TagProperty_dictionary_witness:
  "strcasecmp_eq (example_tokens ! 0) (example_tokens ! 1)
   \<and> \<not> strcasecmp_eq (example_tokens ! 0) (example_tokens ! 2)
   \<and> \<not> strcasecmp_eq (example_tokens ! 1) (example_tokens ! 2)
   \<and> card (map tolower ` set (take 2 example_tokens)) = 1
   \<and> (\<exists>bs tags. Tag_run example_tokens [] = Some (bs, tags)
         \<and> bs ! 0 = bs ! 1 \<and> bs ! 2 = Byte 1
         \<and> find_if (strcasecmp_eq (example_tokens ! 2)) tags = 1
         \<and> tags ! 1 = example_tokens ! 2 \<and> length tags = 3)
   \<and> Property_parse (TagProperty ''owner'') ''asf'' \<lparr>ptr = 0, count = 1\<rparr> [Byte 0] []
       = Some (True, (TagProperty ''owner'')\<lparr>m_tags := [''asf'']\<rparr>, [Byte 0], [])"
proof -
  have h1: "strcasecmp_eq (example_tokens ! 0) (example_tokens ! 1)"
    by code_simp
  have h02: "\<not> strcasecmp_eq (example_tokens ! 0) (example_tokens ! 2)"
    and h12: "\<not> strcasecmp_eq (example_tokens ! 1) (example_tokens ! 2)"
    by code_simp+
  then have h2: "\<forall>i < 2. \<not> strcasecmp_eq (example_tokens ! i) (example_tokens ! 2)"
    by (simp add: less_2_cases_iff)
  have run: "Tag_run example_tokens []
      = Some ([Byte 0, Byte 0, Byte 1, Byte 0, Byte 2], [''asf'', ''cmi'', ''ind''])"
    by code_simp
  have len: "(0::nat) < length example_tokens" "(1::nat) < length example_tokens"
    "(2::nat) < length example_tokens"
    by (simp_all add: example_tokens_def)
  have c: "card (map tolower ` set (take 2 example_tokens)) = 1"
  proof -
    have "map tolower ` set (take 2 example_tokens) = {''asf''}"
      by code_simp
    then show ?thesis by simp
  qed
  from TagProperty_dictionary [of example_tokens]
  obtain bs tags where r: "Tag_run example_tokens [] = Some (bs, tags)"
    and same: "\<forall>i j. i < length example_tokens \<and> j < length example_tokens
        \<and> strcasecmp_eq (example_tokens ! i) (example_tokens ! j)
        \<longrightarrow> find_if (strcasecmp_eq (example_tokens ! i)) tags
              = find_if (strcasecmp_eq (example_tokens ! j)) tags
            \<and> bs ! i = bs ! j"
    and new: "\<forall>j. j < length example_tokens
        \<and> (\<forall>i < j. \<not> strcasecmp_eq (example_tokens ! i) (example_tokens ! j)) \<longrightarrow>
        find_if (strcasecmp_eq (example_tokens ! j)) tags
          = card (map tolower ` set (take j example_tokens))
        \<and> tags ! card (map tolower ` set (take j example_tokens)) = example_tokens ! j
        \<and> bs ! j = Byte (of_nat (card (map tolower ` set (take j example_tokens))))
        \<and> (\<exists>w. bs ! j = Byte w
               \<and> unat w = card (map tolower ` set (take j example_tokens)) mod 256)
        \<and> (card (map tolower ` set (take j example_tokens)) < 256 \<longrightarrow>
             (\<exists>w. bs ! j = Byte w \<and> unat w = card (map tolower ` set (take j example_tokens))))"
    by blast
  from same len(1,2) h1 have s01: "bs ! 0 = bs ! 1"
    by blast
  from new len(3) h2
  have n2: "find_if (strcasecmp_eq (example_tokens ! 2)) tags
          = card (map tolower ` set (take 2 example_tokens))"
    "tags ! card (map tolower ` set (take 2 example_tokens)) = example_tokens ! 2"
    "bs ! 2 = Byte (of_nat (card (map tolower ` set (take 2 example_tokens))))"
    by blast+
  have "tags = [''asf'', ''cmi'', ''ind'']"
    using r run by simp
  then have l3: "length tags = 3"
    by simp
  have "Tag_run example_tokens [] = Some (bs, tags)
         \<and> bs ! 0 = bs ! 1 \<and> bs ! 2 = Byte 1
         \<and> find_if (strcasecmp_eq (example_tokens ! 2)) tags = 1
         \<and> tags ! 1 = example_tokens ! 2 \<and> length tags = 3"
    using r s01 n2 l3 by (simp add: c)
  then have ex: "\<exists>bs tags. Tag_run example_tokens [] = Some (bs, tags)
         \<and> bs ! 0 = bs ! 1 \<and> bs ! 2 = Byte 1
         \<and> find_if (strcasecmp_eq (example_tokens ! 2)) tags = 1
         \<and> tags ! 1 = example_tokens ! 2 \<and> length tags = 3"
    by blast
  have pp: "Property_parse (TagProperty ''owner'') ''asf'' \<lparr>ptr = 0, count = 1\<rparr> [Byte 0] []
       = Some (True, (TagProperty ''owner'')\<lparr>m_tags := [''asf'']\<rparr>, [Byte 0], [])"
    by code_simp
  from h1 h02 h12 c ex pp show ?thesis
    by (intro conjI)
qed

lemma Tag_run_distinct_tags:
  assumes "distinct (map (map tolower) (tags @ toks))"
  shows "\<exists>bs. Tag_run toks tags = Some (bs, tags @ toks)"
  using assms
proof (induction toks arbitrary: tags)
  case Nil
  then show ?case by simp
next
  case (Cons tok toks)
  have "\<forall>x \<in> set tags. \<not> strcasecmp_eq tok x"
    using Cons.prems by (auto simp: strcasecmp_eq_def)
  then have next_eq: "Tag_next tok tags = tags @ [tok]"
    by (simp add: Tag_next_def find_if_end)
  have "distinct (map (map tolower) ((tags @ [tok]) @ toks))"
    using Cons.prems by simp
  from Cons.IH [OF this] show ?case
    by (auto simp: Tag_run_Cons next_eq)
qed

lemma Tag_run_distinct:
  assumes "distinct (map (map tolower) toks)"
  shows "\<exists>bs. Tag_run toks [] = Some (bs, toks) \<and> length bs = length toks
           \<and> (\<forall>j < length toks. bs ! j = Byte (of_nat j))"
proof -
  obtain bs where run: "Tag_run toks [] = Some (bs, toks)"
    using Tag_run_distinct_tags [of "[]" toks] assms by auto
  have len: "length bs = length toks"
    using Tag_run_total [of toks "[]"] run by auto
  have "bs ! j = Byte (of_nat j)" if j: "j < length toks" for j
  proof -
    have d: "distinct (map (map tolower) (take j toks))"
      using assms by (simp add: take_map [symmetric] distinct_take)
    have "card (map tolower ` set (take j toks)) = length (map (map tolower) (take j toks))"
      using distinct_card [OF d] by simp
    then have c: "card (map tolower ` set (take j toks)) = j"
      using j by simp
    have "\<not> strcasecmp_eq (toks ! i) (toks ! j)" if "i < j" for i
    proof -
      have "i < length (map (map tolower) toks)" "j < length (map (map tolower) toks)" "i \<noteq> j"
        using that j by simp_all
      then have "map (map tolower) toks ! i \<noteq> map (map tolower) toks ! j"
        using assms nth_eq_iff_index_eq [of "map (map tolower) toks" i j] by blast
      then show ?thesis using that j by (simp add: strcasecmp_eq_def)
    qed
    then show ?thesis using Tag_run_new_index [OF run j] c by simp
  qed
  then show ?thesis using run len by blast
qed

text \<open>
  C10. \<^verbatim>\<open>TagProperty::parse\<close> returns \<^verbatim>\<open>true\<close> for every token, the empty token
  included (it enters the dictionary like any other), whenever the byte of its span
  lies in the row; the byte written is the index of the token in the dictionary
  modulo 256. The dictionary grows past 256 entries: for more than 256 tokens that
  differ pairwise without regard to case, token \<open>j\<close> is entry \<open>j\<close> of the dictionary
  and the byte stored for the 257th is 0, as for the first.
\<close>

theorem TagProperty_parse_index_wraps:
  "(ptr sp < length mem \<longrightarrow>
      (\<exists>w. TagProperty_parse tok sp tags mem
              = Some (True, Tag_next tok tags, mem[ptr sp := Byte w])
          \<and> unat w = find_if (strcasecmp_eq tok) (Tag_next tok tags) mod 256
          \<and> find_if (strcasecmp_eq tok) (Tag_next tok tags) < length (Tag_next tok tags)))
   \<and> (ptr sp < length mem \<longrightarrow>
        TagProperty_parse [] sp [] mem = Some (True, [[]], mem[ptr sp := Byte 0]))
   \<and> (distinct (map (map tolower) toks) \<and> 256 < length toks \<longrightarrow>
        (\<exists>bs. Tag_run toks [] = Some (bs, toks) \<and> length bs = length toks
           \<and> (\<forall>j < length toks. bs ! j = Byte (of_nat j))
           \<and> bs ! 256 = Byte 0 \<and> bs ! 0 = Byte 0))"
proof (intro conjI impI)
  assume sp: "ptr sp < length mem"
  let ?n = "find_if (strcasecmp_eq tok) (Tag_next tok tags)"
  have "TagProperty_parse tok sp tags mem
      = Some (True, Tag_next tok tags, mem[ptr sp := Byte (of_nat ?n)])"
    using sp by (simp add: TagProperty_parse_step Tag_next_self) (simp add: Tag_next_def)
  moreover have "unat (of_nat ?n :: 8 word) = ?n mod 256"
    by (simp add: unat_of_nat)
  moreover have "?n < length (Tag_next tok tags)"
    using Tag_next_self_found [of tok tags] by (simp add: find_if_found)
  ultimately show "\<exists>w. TagProperty_parse tok sp tags mem
              = Some (True, Tag_next tok tags, mem[ptr sp := Byte w])
          \<and> unat w = ?n mod 256 \<and> ?n < length (Tag_next tok tags)"
    by blast
next
  assume sp: "ptr sp < length mem"
  show "TagProperty_parse [] sp [] mem = Some (True, [[]], mem[ptr sp := Byte 0])"
    using sp by (simp add: TagProperty_parse_step) (simp add: find_if_def)
next
  assume a: "distinct (map (map tolower) toks) \<and> 256 < length toks"
  then obtain bs where run: "Tag_run toks [] = Some (bs, toks)" and len: "length bs = length toks"
    and nth: "\<forall>j < length toks. bs ! j = Byte (of_nat j)"
    using Tag_run_distinct [of toks] by blast
  have "256 < length toks" and "0 < length toks"
    using a by auto
  then have "bs ! 256 = Byte (of_nat 256)" and "bs ! 0 = Byte (of_nat 0)"
    using nth by blast+
  then have "bs ! 256 = Byte 0" and "bs ! 0 = Byte 0"
    by simp_all
  then show "\<exists>bs. Tag_run toks [] = Some (bs, toks) \<and> length bs = length toks
           \<and> (\<forall>j < length toks. bs ! j = Byte (of_nat j))
           \<and> bs ! 256 = Byte 0 \<and> bs ! 0 = Byte 0"
    using run len nth by blast
qed

definition many_tokens :: "TextView list" where
  "many_tokens = map (\<lambda>n. replicate n CHR ''a'') [0 ..< 257]"

theorem TagProperty_parse_index_wraps_witness:
  "distinct (map (map tolower) many_tokens) \<and> 256 < length many_tokens
   \<and> many_tokens ! 0 = [] \<and> length (many_tokens ! 256) = 256
   \<and> (\<exists>bs. Tag_run many_tokens [] = Some (bs, many_tokens)
         \<and> bs ! 256 = Byte 0 \<and> bs ! 0 = Byte 0 \<and> bs ! 255 = Byte 255)
   \<and> ptr \<lparr>ptr = 0, count = 1\<rparr> < length [Byte 7]
   \<and> TagProperty_parse ''b'' \<lparr>ptr = 0, count = 1\<rparr> [''a''] [Byte 7] = Some (True, [''a'', ''b''], [Byte 1])
   \<and> TagProperty_parse [] \<lparr>ptr = 0, count = 1\<rparr> [] [Byte 7] = Some (True, [[]], [Byte 0])"
proof -
  have "tolower CHR ''a'' = CHR ''a''"
    by code_simp
  then have low: "map tolower (replicate n CHR ''a'') = replicate n CHR ''a''" for n
    by simp
  have "map (map tolower) many_tokens = map (\<lambda>n. replicate n CHR ''a'') [0 ..< 257]"
    unfolding many_tokens_def map_map comp_def low ..
  moreover have "inj_on (\<lambda>n. replicate n CHR ''a'') (set [0 ..< 257])"
    by (rule inj_onI) (metis length_replicate)
  ultimately have d: "distinct (map (map tolower) many_tokens)"
    by (simp add: distinct_map)
  have len: "length many_tokens = 257"
    by (simp add: many_tokens_def)
  have l: "256 < length many_tokens" "(255::nat) < length many_tokens"
    by (simp_all add: len)
  have first: "many_tokens ! 0 = []" and last: "length (many_tokens ! 256) = 256"
    by (simp_all add: many_tokens_def nth_map del: upt_Suc)
  have sp: "ptr \<lparr>ptr = 0, count = 1\<rparr> < length [Byte 7]"
    by simp
  note T = TagProperty_parse_index_wraps [of "\<lparr>ptr = 0, count = 1\<rparr>" "[Byte 7]" "''b''" "[''a'']" many_tokens]
  from T d l(1) obtain bs where run: "Tag_run many_tokens [] = Some (bs, many_tokens)"
    and nth: "\<forall>j < length many_tokens. bs ! j = Byte (of_nat j)"
    and wrap: "bs ! 256 = Byte 0" "bs ! 0 = Byte 0"
    by blast
  from nth l(2) have "bs ! 255 = Byte (of_nat 255)" by blast
  then have b255: "bs ! 255 = Byte 255" by simp
  from T sp have e: "TagProperty_parse [] \<lparr>ptr = 0, count = 1\<rparr> [] [Byte 7] = Some (True, [[]], [Byte 7][ptr \<lparr>ptr = 0, count = 1\<rparr> := Byte 0])"
    by blast
  have p: "TagProperty_parse ''b'' \<lparr>ptr = 0, count = 1\<rparr> [''a''] [Byte 7] = Some (True, [''a'', ''b''], [Byte 1])"
    by code_simp
  show ?thesis
    using d l(1) first last run wrap b255 sp p e by simp
qed

lemma many_tokens_distinct: "distinct (map (map tolower) many_tokens)"
proof -
  have "tolower CHR ''a'' = CHR ''a''"
    by code_simp
  then have low: "map tolower (replicate n CHR ''a'') = replicate n CHR ''a''" for n
    by simp
  have "map (map tolower) many_tokens = map (\<lambda>n. replicate n CHR ''a'') [0 ..< 257]"
    unfolding many_tokens_def map_map comp_def low ..
  moreover have "inj_on (\<lambda>n. replicate n CHR ''a'') (set [0 ..< 257])"
    by (rule inj_onI) (metis length_replicate)
  ultimately show ?thesis
    by (simp add: distinct_map)
qed

text \<open>
  C5 as stated gives a token not seen before "the next unused index, equal to the
  number of distinct tokens seen before it" as its stored index. The last of the 257
  tokens of \<open>many_tokens\<close> differs from the 256 before it, and the byte stored for it
  is 0, not 256: the byte stored for the first.
\<close>

theorem TagProperty_stored_index_reused:
  "length many_tokens = 257
   \<and> distinct (map (map tolower) many_tokens)
   \<and> card (map tolower ` set (take 256 many_tokens)) = 256
   \<and> (\<exists>bs tags. Tag_run many_tokens [] = Some (bs, tags)
         \<and> (\<exists>w. bs ! 256 = Byte w \<and> unat w = 0)
         \<and> bs ! 256 = bs ! 0)"
proof -
  have len: "length many_tokens = 257"
    by (simp add: many_tokens_def)
  note d = many_tokens_distinct
  have "distinct (map (map tolower) (take 256 many_tokens))"
    using d by (simp add: take_map [symmetric] distinct_take)
  then have "card (set (map (map tolower) (take 256 many_tokens)))
      = length (map (map tolower) (take 256 many_tokens))"
    by (rule distinct_card)
  then have c: "card (map tolower ` set (take 256 many_tokens)) = 256"
    using len by simp
  from Tag_run_distinct [OF d] obtain bs where run: "Tag_run many_tokens [] = Some (bs, many_tokens)"
    and nth: "\<forall>j < length many_tokens. bs ! j = Byte (of_nat j)"
    by blast
  have "(256::nat) < length many_tokens" and "(0::nat) < length many_tokens"
    by (simp_all add: len)
  then have "bs ! 256 = Byte (of_nat 256)" and "bs ! 0 = Byte (of_nat 0)"
    using nth by blast+
  then have b: "bs ! 256 = Byte 0" "bs ! 0 = Byte 0"
    by simp_all
  have "unat (0 :: 8 word) = 0" by simp
  then have "(\<exists>w. bs ! 256 = Byte w \<and> unat w = 0) \<and> bs ! 256 = bs ! 0"
    using b by simp
  then have "\<exists>bs tags. Tag_run many_tokens [] = Some (bs, tags)
         \<and> (\<exists>w. bs ! 256 = Byte w \<and> unat w = 0) \<and> bs ! 256 = bs ! 0"
    using run by blast
  with len d c show ?thesis
    by (intro conjI)
qed

section \<open>\<^verbatim>\<open>Table::parse\<close> on a whole source\<close>

text \<open>
  A table is laid out when the fields of its columns fit in a row and no
  \<^verbatim>\<open>FlagGroupProperty\<close> has more tags than its field has bits. Every access of
  \<^verbatim>\<open>Table::parse\<close> to a row of such a table stays inside the row.
\<close>

definition flags_fit :: "Property \<Rightarrow> bool" where
  "flags_fit p = (case kind p of KFlagGroup \<Rightarrow> length (m_tags p) \<le> 8 * unat FlagGroupProperty_SIZE | _ \<Rightarrow> True)"

definition row_bytes :: "Property list \<Rightarrow> nat" where
  "row_bytes cols = sum_list (map (\<lambda>c. unat (Property_size c)) cols)"

definition table_ok :: "Table \<Rightarrow> bool" where
  "table_ok t = (row_bytes (m_columns t) \<le> unat (m_size t) \<and> list_all flags_fit (m_columns t))"

text \<open>The range token of each line of a source, in the order of the lines.\<close>

function range_tokens :: "TextView \<Rightarrow> TextView list" where
  "range_tokens src =
     (if src \<noteq> [] then
        fst (take_prefix_at CHR '','' (fst (take_prefix_at CHR 0x0A src)))
          # range_tokens (snd (take_prefix_at CHR 0x0A src))
      else [])"
  by pat_completeness auto
termination
  by (relation "measure length") (simp_all add: take_prefix_at_shorter)

declare range_tokens.simps [simp del]

lemma FlagGroup_for_fits:
  assumes "ptr sp < length mem" and "j + length keys \<le> 8" and "\<exists>w. mem ! ptr sp = Byte w"
  shows "\<exists>j' mem'. FlagGroup_for keys tag j sp mem = Some (j', mem')
           \<and> j' \<le> j + length keys \<and> length mem' = length mem
           \<and> (\<exists>w. mem' ! ptr sp = Byte w)"
  using assms
proof (induction keys arbitrary: j)
  case Nil
  then show ?case by simp
next
  case (Cons key keys)
  show ?case
  proof (cases "strcasecmp_eq key tag")
    case True
    have j: "j div 8 = 0" using Cons.prems(2) by simp
    from Cons.prems(3) obtain w where w: "mem ! ptr sp = Byte w" by blast
    have "FlagGroup_for (key # keys) tag j sp mem
        = Some (j, mem[ptr sp := Byte (w OR push_bit (j mod 8) 1)])"
      using True j w Cons.prems(1) by (simp add: span_load_def span_store_def)
    then show ?thesis using Cons.prems(1) by simp
  next
    case False
    have "j + 1 + length keys \<le> 8" using Cons.prems(2) by simp
    from Cons.IH [OF Cons.prems(1) this Cons.prems(3)] False show ?thesis
      by auto
  qed
qed

lemma FlagGroup_while_fits:
  assumes "ptr sp < length mem" and "length tags \<le> 8" and "\<exists>w. mem ! ptr sp = Byte w"
  shows "\<exists>mem'. FlagGroup_while tags token sp mem cout = Some (True, mem', cout)
           \<and> length mem' = length mem"
  using assms
proof (induction tags token sp mem cout rule: FlagGroup_while.induct)
  case (1 tags token span mem cout)
  show ?case
  proof (cases "token = []")
    case True
    then show ?thesis by (subst FlagGroup_while.simps) simp
  next
    case False
    let ?tag = "fst (take_prefix_at CHR '';'' token)"
    let ?tok' = "snd (take_prefix_at CHR '';'' token)"
    have "0 + length tags \<le> 8" using "1.prems"(2) by simp
    from FlagGroup_for_fits [OF "1.prems"(1) this "1.prems"(3), of ?tag]
    obtain j mem1 where f: "FlagGroup_for tags ?tag 0 span mem = Some (j, mem1)"
      and j: "j \<le> length tags" and len: "length mem1 = length mem"
      and b: "\<exists>w. mem1 ! ptr span = Byte w"
      by auto
    have unf: "FlagGroup_while tags token span mem cout = FlagGroup_while tags ?tok' span mem1 cout"
      using False f j by (simp add: FlagGroup_while.simps [of tags token] Let_def)
    have "ptr span < length mem1" using "1.prems"(1) len by simp
    moreover have "\<not> length tags < j" using j by simp
    ultimately have "\<exists>mem'. FlagGroup_while tags ?tok' span mem1 cout = Some (True, mem', cout)
           \<and> length mem' = length mem1"
      using "1.IH" [OF False refl refl f refl] "1.prems"(2) b by blast
    then show ?thesis using unf len by auto
  qed
qed

lemma store_bytes_length:
  "store_bytes mem p bs = Some mem' \<Longrightarrow> length mem' = length mem"
  by (auto simp: store_bytes_def split: if_splits)

lemma FlagGroupProperty_parse_fits:
  assumes "ptr sp + count sp \<le> length mem" and "count sp = 1" and "length tags \<le> 8"
  shows "\<exists>mem'. FlagGroupProperty_parse tags token sp mem cout = Some (True, mem', cout)
           \<and> length mem' = length mem"
proof (cases "token = ''-''")
  case True
  then show ?thesis by (simp add: FlagGroupProperty_parse_def)
next
  case False
  have p: "ptr sp < length mem" using assms(1,2) by simp
  define mem0 where "mem0 = take (ptr sp) mem @ [Byte 0] @ drop (ptr sp + 1) mem"
  have ms: "memset_span mem sp 0 = Some mem0"
    using assms(1,2) by (simp add: memset_span_def store_bytes_def mem0_def)
  have len0: "length mem0 = length mem"
    using p by (simp add: mem0_def)
  have b0: "\<exists>w. mem0 ! ptr sp = Byte w"
    using p by (simp add: mem0_def nth_append)
  have "ptr sp < length mem0" using p len0 by simp
  from FlagGroup_while_fits [OF this assms(3) b0, of token cout]
  show ?thesis using False ms len0 by (auto simp: FlagGroupProperty_parse_def)
qed


lemma Property_parse_fits:
  assumes "ptr sp + unat (Property_size p) \<le> length mem" and "count sp = unat (Property_size p)"
    and "flags_fit p"
  shows "\<exists>p' mem'. Property_parse p tok sp mem cout = Some (True, p', mem', cout)
           \<and> length mem' = length mem \<and> Property_size p' = Property_size p \<and> flags_fit p'"
proof -
  have defined: "\<exists>p' mem'. Property_parse p tok sp mem cout = Some (True, p', mem', cout)
           \<and> length mem' = length mem"
  proof (cases "kind p")
    case KFlagGroup
    then have "count sp = 1" and "ptr sp + count sp \<le> length mem" and "length (m_tags p) \<le> 8"
      using assms by (simp_all add: Property_size_def FlagGroupProperty_SIZE_def flags_fit_def)
    from FlagGroupProperty_parse_fits [OF this(2) this(1) this(3), of tok cout]
    show ?thesis using KFlagGroup by (auto simp: Property_parse_def)
  next
    case KTag
    then have "ptr sp < length mem"
      using assms(1) by (simp add: Property_size_def TagProperty_SIZE_def)
    then show ?thesis
      using KTag by (simp add: Property_parse_def TagProperty_parse_step)
  next
    case KString
    then have "ptr sp + 16 \<le> length mem"
      using assms(1) by (simp add: Property_size_def StringProperty_SIZE_def)
    then show ?thesis
      using KString
      by (simp add: Property_parse_def StringProperty_parse_def store_bytes_def
          StringProperty_SIZE_def)
  qed
  then obtain p' mem' where r: "Property_parse p tok sp mem cout = Some (True, p', mem', cout)"
    and len: "length mem' = length mem"
    by blast
  have p': "p' = (case kind p of KTag \<Rightarrow> p\<lparr>m_tags := Tag_next tok (m_tags p)\<rparr> | _ \<Rightarrow> p)"
    using Property_parse_tags [OF r] .
  have "Property_size p' = Property_size p" and "flags_fit p'"
    using p' assms(3) by (auto simp: Property_size_def flags_fit_def split: Kind.splits)
  then show ?thesis using r len by blast
qed

lemma row_bytes_Cons: "row_bytes (c # cols) = unat (Property_size c) + row_bytes cols"
  by (simp add: row_bytes_def)

lemma parse_columns_fits:
  assumes "ptr sp + row_bytes cols \<le> length mem" and "row_bytes cols \<le> count sp"
    and "list_all flags_fit cols"
  shows "\<exists>cols' line' sp' mem'.
           parse_columns cols line_no line sp mem cout = Some (cols', line', sp', mem', cout)
           \<and> length mem' = length mem \<and> row_bytes cols' = row_bytes cols
           \<and> list_all flags_fit cols' \<and> length cols' = length cols"
  using assms
proof (induction cols arbitrary: line sp mem)
  case Nil
  then show ?case by simp
next
  case (Cons col cols)
  let ?n = "unat (Property_size col)"
  let ?tok = "if needs_localized_token col then Table_localize (fst (Table_token line))
              else fst (Table_token line)"
  let ?sp1 = "\<lparr>ptr = ptr sp, count = ?n\<rparr>"
  have fit: "ptr ?sp1 + ?n \<le> length mem" "count ?sp1 = ?n" "flags_fit col"
    using Cons.prems by (simp_all add: row_bytes_Cons)
  from Property_parse_fits [OF fit, of ?tok cout]
  obtain col' mem1 where p: "Property_parse col ?tok ?sp1 mem cout = Some (True, col', mem1, cout)"
    and len1: "length mem1 = length mem" and sz: "Property_size col' = Property_size col"
    and ff: "flags_fit col'"
    by blast
  let ?sp2 = "MemSpan_remove_prefix ?n sp"
  have sp2: "ptr ?sp2 = ptr sp + ?n" "count ?sp2 = count sp - ?n"
    using Cons.prems(2) by (simp_all add: MemSpan_remove_prefix_def Let_def row_bytes_Cons min_def)
  have pre: "ptr ?sp2 + row_bytes cols \<le> length mem1" "row_bytes cols \<le> count ?sp2"
    "list_all flags_fit cols"
    using Cons.prems sp2 len1 by (simp_all add: row_bytes_Cons)
  from Cons.IH [OF pre, of "snd (Table_token line)"]
  obtain cols' line' sp' mem' where
    r: "parse_columns cols line_no (snd (Table_token line)) ?sp2 mem1 cout
          = Some (cols', line', sp', mem', cout)"
    and len: "length mem' = length mem1" and rb: "row_bytes cols' = row_bytes cols"
    and fl: "list_all flags_fit cols'" and lc: "length cols' = length cols"
    by blast
  have "parse_columns (col # cols) line_no line sp mem cout
      = Some (col' # cols', line', sp', mem', cout)"
    using p r by (simp add: Let_def)
  then show ?case
    using len len1 rb sz ff fl lc by (simp add: row_bytes_Cons)
qed

lemma range_tokens_Nil: "range_tokens [] = []"
  by (simp add: range_tokens.simps)

lemma range_tokens_step:
  "src \<noteq> [] \<Longrightarrow> range_tokens src
     = fst (take_prefix_at CHR '','' (fst (take_prefix_at CHR 0x0A src)))
         # range_tokens (snd (take_prefix_at CHR 0x0A src))"
  by (subst range_tokens.simps) simp

lemma Table_parse_while_ok:
  assumes "table_ok t"
  shows "\<exists>t' cout'. Table_parse_while range_empty src line_no t cout = Some (t', cout')
           \<and> table_ok t' \<and> m_size t' = m_size t
           \<and> length (m_columns t') = length (m_columns t)
           \<and> map fst (m_space t')
               = map fst (m_space t) @ filter (\<lambda>r. \<not> range_empty r) (range_tokens src)
           \<and> cout' = cout @ map InvalidRange (filter range_empty (range_tokens src))"
  using assms
proof (induction range_empty src line_no t cout rule: Table_parse_while.induct)
  case (1 range_empty src line_no t cout)
  show ?case
  proof (cases "src = []")
    case True
    then show ?thesis
      using "1.prems" by (subst Table_parse_while.simps) (simp add: range_tokens_Nil)
  next
    case False
    let ?line = "fst (take_prefix_at CHR 0x0A src)"
    let ?src' = "snd (take_prefix_at CHR 0x0A src)"
    let ?tok = "fst (take_prefix_at CHR '','' ?line)"
    let ?line' = "snd (take_prefix_at CHR '','' ?line)"
    note rt = range_tokens_step [OF False]
    show ?thesis
    proof (cases "range_empty ?tok")
      case True
      have unf: "Table_parse_while range_empty src line_no t cout
          = Table_parse_while range_empty ?src' (line_no + 1) t (cout @ [InvalidRange ?tok])"
        using False True by (subst Table_parse_while.simps) (simp add: Let_def)
      from "1.IH"(1) [OF False refl refl refl refl refl True "1.prems"]
      show ?thesis unfolding unf rt using True by auto
    next
      case valid: False
      let ?mem = "arena_alloc (unat (m_size t))"
      let ?span = "\<lparr>ptr = 0, count = unat (m_size t)\<rparr>"
      have pre: "ptr ?span + row_bytes (m_columns t) \<le> length ?mem"
        "row_bytes (m_columns t) \<le> count ?span" "list_all flags_fit (m_columns t)"
        using "1.prems" by (simp_all add: table_ok_def arena_alloc_def)
      from parse_columns_fits [OF pre, of "line_no + 1" ?line' cout]
      obtain cols' line'' sp' mem' where
        pc: "parse_columns (m_columns t) (line_no + 1) ?line' ?span ?mem cout
               = Some (cols', line'', sp', mem', cout)"
        and rb: "row_bytes cols' = row_bytes (m_columns t)" and fl: "list_all flags_fit cols'"
        and lc: "length cols' = length (m_columns t)"
        by blast
      let ?t1 = "t\<lparr>m_columns := cols',
                   m_space := m_space t @ [(?tok, \<lparr>m_data = ?span, block = mem'\<rparr>)]\<rparr>"
      have unf: "Table_parse_while range_empty src line_no t cout
          = Table_parse_while range_empty ?src' (line_no + 1) ?t1 cout"
        using False valid pc by (subst Table_parse_while.simps) (simp add: Let_def)
      have ok1: "table_ok ?t1"
        using "1.prems" rb fl by (simp add: table_ok_def)
      from "1.IH"(2) [OF False refl refl refl refl refl valid refl refl pc refl refl refl refl ok1]
      show ?thesis unfolding unf rt using valid lc by auto
    qed
  qed
qed


lemma flags_fit_update [simp]:
  "flags_fit (p\<lparr>m_offset := a\<rparr>) = flags_fit p"
  "flags_fit (p\<lparr>m_idx := b\<rparr>) = flags_fit p"
  by (simp_all add: flags_fit_def split: Kind.splits)

lemma add_columns_table_ok:
  assumes "list_all flags_fit cols" and "row_bytes cols < 2 ^ 64"
  shows "table_ok (add_columns cols Table_empty)"
proof -
  let ?t = "add_columns cols Table_empty"
  note L = add_columns_layout [of cols]
  from L have len: "length (m_columns ?t) = length cols" by blast
  from L have sz: "m_size ?t = sum_list (map Property_size cols)" by blast
  from L have nth: "\<And>i. i < length cols \<Longrightarrow> m_columns ?t ! i
      = (cols ! i)\<lparr>m_offset := sum_list (map Property_size (take i cols)), m_idx := of_nat i\<rparr>"
    by blast
  have "map (\<lambda>c. unat (Property_size c)) (m_columns ?t) = map (\<lambda>c. unat (Property_size c)) cols"
    by (rule nth_equalityI) (simp_all add: len nth)
  then have rb: "row_bytes (m_columns ?t) = row_bytes cols"
    by (simp add: row_bytes_def)
  have "unat (m_size ?t) = row_bytes cols"
    using assms(2) sz by (simp add: row_bytes_def unat_sum_list)
  moreover have "list_all flags_fit (m_columns ?t)"
    using assms(1) by (auto simp: list_all_length len nth)
  ultimately show ?thesis using rb by (simp add: table_ok_def)
qed

text \<open>
  What \<^verbatim>\<open>Table::parse\<close> does on a whole source. On a table that is laid out it returns
  for every source text, and returns \<^verbatim>\<open>true\<close>, also when a line had no valid range. A line whose range
  token gives an empty range is skipped: the message for the token is printed, no row
  is marked for it, and the lines after it are parsed all the same, so the ranges
  marked are those of the lines with a valid range token, in their order. The result is \<^verbatim>\<open>true\<close> with or without skipped lines
  (the source has no other \<^verbatim>\<open>return\<close>), and whatever the fields hold: the result of a
  property's \<^verbatim>\<open>parse\<close> is used for a message only, and none of the three property
  classes a table can hold reports a failure, so the messages printed are those
  of the skipped lines. A table built with \<^verbatim>\<open>add_column\<close> is laid out when no flag group
  has more than 8 tags (\<open>add_columns_table_ok\<close>), and stays so after a parse.
\<close>

theorem Table_parse_skips_invalid_ranges:
  assumes "table_ok t"
  shows "\<exists>t' cout'. Table_parse range_empty src t cout = Some (True, t', cout')
           \<and> map fst (m_space t')
               = map fst (m_space t) @ filter (\<lambda>r. \<not> range_empty r) (range_tokens src)
           \<and> cout' = cout @ map InvalidRange (filter range_empty (range_tokens src))
           \<and> table_ok t'"
proof -
  from Table_parse_while_ok [OF assms, of range_empty src 0 cout]
  obtain t' cout' where "Table_parse_while range_empty src 0 t cout = Some (t', cout')"
    and "table_ok t'"
    and "map fst (m_space t')
           = map fst (m_space t) @ filter (\<lambda>r. \<not> range_empty r) (range_tokens src)"
    and "cout' = cout @ map InvalidRange (filter range_empty (range_tokens src))"
    by blast
  then show ?thesis by (simp add: Table_parse_def)
qed

definition example_table :: Table where
  "example_table = add_columns example_columns Table_empty"

definition no_range :: "TextView \<Rightarrow> bool" where
  "no_range tok = (tok = [])"

definition faulty_src :: TextView where
  "faulty_src =
     ''10.1.1.0/24,asf,cmi,prod;internal,core'' @ [CHR 0x0A] @
     '',asf,cmi,prod,no range'' @ [CHR 0x0A] @
     ''192.168.28.0/25,asf,ind,bogus,indy'' @ [CHR 0x0A]"

theorem Table_parse_skips_invalid_ranges_witness:
  "table_ok example_table
   \<and> range_tokens faulty_src = [''10.1.1.0/24'', [], ''192.168.28.0/25'']
   \<and> (\<exists>t'. Table_parse no_range faulty_src example_table [] = Some (True, t', [InvalidRange []])
         \<and> map fst (m_space t') = [''10.1.1.0/24'', ''192.168.28.0/25''])"
proof -
  have "list_all flags_fit example_columns"
    by (simp add: example_columns_def flags_fit_def Property_defs)
  moreover have "row_bytes example_columns < 2 ^ 64"
    by (simp add: example_columns_def row_bytes_def Property_defs)
  ultimately have ok: "table_ok example_table"
    unfolding example_table_def by (rule add_columns_table_ok)
  have rt: "range_tokens faulty_src = [''10.1.1.0/24'', [], ''192.168.28.0/25'']"
    by code_simp
  have sp: "map fst (m_space example_table) = []"
    by code_simp
  have valid: "filter (\<lambda>r. \<not> no_range r) (range_tokens faulty_src)
      = [''10.1.1.0/24'', ''192.168.28.0/25'']"
    unfolding rt by (simp add: no_range_def)
  have invalid: "map InvalidRange (filter no_range (range_tokens faulty_src)) = [InvalidRange []]"
    unfolding rt by (simp add: no_range_def)
  note T = Table_parse_skips_invalid_ranges [OF ok, of no_range faulty_src "[]",
      unfolded valid invalid sp append_Nil]
  from T have "\<exists>t'. Table_parse no_range faulty_src example_table [] = Some (True, t', [InvalidRange []])
      \<and> map fst (m_space t') = [''10.1.1.0/24'', ''192.168.28.0/25'']"
    by (elim exE conjE) (intro exI conjI, simp, assumption)
  with ok rt show ?thesis
    by (intro conjI)
qed

text \<open>
  C6. A line without a valid range is skipped with its message and the lines after it
  are parsed, but the call does not tell: \<^verbatim>\<open>Table::parse\<close> is documented to return
  "\<^verbatim>\<open>true\<close> if parsing was successful, \<^verbatim>\<open>false\<close> if not" (line 155) and the skip is
  commented "This is an error, real code should report it" (line 255), yet the only
  \<^verbatim>\<open>return\<close> is \<^verbatim>\<open>return true\<close>. The second line of \<open>faulty_src\<close> has no valid range: it
  is skipped, its message is printed, the two other lines are marked, and the call
  returns \<^verbatim>\<open>true\<close>.
\<close>

theorem Table_parse_true_after_invalid_range:
  "filter no_range (range_tokens faulty_src) = [[]]
   \<and> (case Table_parse no_range faulty_src example_table [] of
         None \<Rightarrow> None
       | Some (ok, t', cout') \<Rightarrow> Some (ok, cout', map fst (m_space t')))
       = Some (True, [InvalidRange []], [''10.1.1.0/24'', ''192.168.28.0/25''])"
  by code_simp

section \<open>Flag groups that fit their field\<close>

text \<open>
  What \<^verbatim>\<open>FlagGroupProperty::parse\<close> does when the group has no more tags than its field
  has bits: every property then writes into its own field only, the field of a group
  whose token is \<^verbatim>\<open>-\<close> stays as allocated, and any other token sets the bits of the tags
  it names.
\<close>

lemma FlagGroup_for_frame:
  assumes "FlagGroup_for keys tag j sp mem = Some (j', mem')" and "j + length keys \<le> 8"
    and "i \<noteq> ptr sp"
  shows "mem' ! i = mem ! i"
  using assms
proof (induction keys arbitrary: j)
  case Nil
  then show ?case by simp
next
  case (Cons key keys)
  show ?case
  proof (cases "strcasecmp_eq key tag")
    case True
    have "j div 8 = 0" using Cons.prems(2) by simp
    then show ?thesis
      using Cons.prems(1,3) True
      by (auto simp: span_load_def span_store_def split: if_splits option.splits mbyte.splits)
  next
    case False
    then show ?thesis using Cons.IH [of "j + 1"] Cons.prems by simp
  qed
qed

lemma FlagGroup_while_frame:
  assumes "FlagGroup_while tags token sp mem cout = Some (r, mem', cout')" and "length tags \<le> 8"
    and "i \<noteq> ptr sp"
  shows "mem' ! i = mem ! i"
  using assms
proof (induction tags token sp mem cout rule: FlagGroup_while.induct)
  case (1 tags token span mem cout)
  show ?case
  proof (cases "token = []")
    case True
    then show ?thesis using "1.prems"(1) by (subst (asm) FlagGroup_while.simps) simp
  next
    case False
    let ?tag = "fst (take_prefix_at CHR '';'' token)"
    let ?tok' = "snd (take_prefix_at CHR '';'' token)"
    from "1.prems"(1) False obtain j mem1 where f: "FlagGroup_for tags ?tag 0 span mem = Some (j, mem1)"
      by (subst (asm) FlagGroup_while.simps) (auto simp: Let_def split: option.splits)
    have m1: "mem1 ! i = mem ! i"
      using FlagGroup_for_frame [OF f _ "1.prems"(3)] "1.prems"(2) by simp
    show ?thesis
    proof (cases "j > length tags")
      case True
      then have "mem' = mem1"
        using "1.prems"(1) False f by (subst (asm) FlagGroup_while.simps) (simp add: Let_def)
      then show ?thesis using m1 by simp
    next
      case nj: False
      then have "FlagGroup_while tags ?tok' span mem1 cout = Some (r, mem', cout')"
        using "1.prems"(1) False f by (subst (asm) FlagGroup_while.simps) (simp add: Let_def)
      from "1.IH" [OF False refl refl f refl nj this "1.prems"(2,3)] m1
      show ?thesis by simp
    qed
  qed
qed

lemma store_bytes_frame:
  assumes "store_bytes mem p bs = Some mem'" and "i < p \<or> p + length bs \<le> i"
  shows "mem' ! i = mem ! i"
proof -
  from assms(1) have fit: "p + length bs \<le> length mem"
    and mem': "mem' = take p mem @ bs @ drop (p + length bs) mem"
    by (auto simp: store_bytes_def split: if_splits)
  from assms(2) show ?thesis
  proof
    assume "i < p"
    then show ?thesis using fit by (simp add: mem' nth_append)
  next
    assume i: "p + length bs \<le> i"
    have l: "length (take p mem) = p" using fit by simp
    have "\<not> i < p" and "\<not> i - p < length bs" using i by simp_all
    then have "mem' ! i = drop (p + length bs) mem ! (i - p - length bs)"
      unfolding mem' nth_append l by simp
    then have "mem' ! i = drop (p + length bs) mem ! (i - (p + length bs))"
      by simp
    also have "\<dots> = mem ! (p + length bs + (i - (p + length bs)))"
      using fit by (simp only: nth_drop)
    finally show ?thesis using i by simp
  qed
qed

text \<open>On a field that fits, a property writes into its own field only.\<close>

lemma Property_parse_frame:
  assumes "Property_parse p tok sp mem cout = Some (r, p', mem', cout')"
    and "count sp = unat (Property_size p)" and "flags_fit p"
    and "i < ptr sp \<or> ptr sp + unat (Property_size p) \<le> i"
  shows "mem' ! i = mem ! i"
proof (cases "kind p")
  case KFlagGroup
  then have tags: "length (m_tags p) \<le> 8" and c: "count sp = 1" and i: "i \<noteq> ptr sp"
    using assms(2,3,4)
    by (auto simp: flags_fit_def Property_size_def FlagGroupProperty_SIZE_def)
  from assms(1) KFlagGroup
  have fg: "FlagGroupProperty_parse (m_tags p) tok sp mem cout = Some (r, mem', cout')"
    by (auto simp: Property_parse_def split: option.splits)
  show ?thesis
  proof (cases "tok = ''-''")
    case True
    then show ?thesis using fg by (simp add: FlagGroupProperty_parse_def)
  next
    case False
    then obtain mem0 where ms: "memset_span mem sp 0 = Some mem0"
      and w: "FlagGroup_while (m_tags p) tok sp mem0 cout = Some (r, mem', cout')"
      using fg by (auto simp: FlagGroupProperty_parse_def split: option.splits)
    have "store_bytes mem (ptr sp) [Byte 0] = Some mem0"
      using ms c by (simp add: memset_span_def)
    moreover have "i < ptr sp \<or> ptr sp + length [Byte 0 :: mbyte] \<le> i"
      using i by auto
    ultimately have "mem0 ! i = mem ! i"
      by (rule store_bytes_frame)
    then show ?thesis using FlagGroup_while_frame [OF w tags i] by simp
  qed
next
  case KTag
  then have i: "i \<noteq> ptr sp"
    using assms(4) by (auto simp: Property_size_def TagProperty_SIZE_def)
  from assms(1) KTag show ?thesis
    using i
    by (auto simp: Property_parse_def TagProperty_parse_def span_store_def Let_def
        split: option.splits if_splits)
next
  case KString
  then have i: "i < ptr sp \<or> ptr sp + 16 \<le> i"
    using assms(4) by (simp add: Property_size_def StringProperty_SIZE_def)
  from assms(1) KString
  obtain m where "store_bytes mem (ptr sp) (map (ViewByte tok) [0 ..< 16]) = Some m" and "mem' = m"
    by (auto simp: Property_parse_def StringProperty_parse_def StringProperty_SIZE_def
        split: option.splits)
  then show ?thesis
    using store_bytes_frame [of mem "ptr sp" "map (ViewByte tok) [0 ..< 16]" mem' i] i by simp
qed


lemma parse_columns_frame:
  assumes "parse_columns cols line_no line sp mem cout = Some (cols', line', sp', mem', cout')"
    and "row_bytes cols \<le> count sp" and "list_all flags_fit cols" and "i < ptr sp"
  shows "mem' ! i = mem ! i"
  using assms
proof (induction cols arbitrary: line sp mem cout cols')
  case Nil
  then show ?case by simp
next
  case (Cons col cols)
  let ?n = "unat (Property_size col)"
  let ?tok = "if needs_localized_token col then Table_localize (fst (Table_token line))
              else fst (Table_token line)"
  let ?sp1 = "\<lparr>ptr = ptr sp, count = ?n\<rparr>"
  let ?sp2 = "MemSpan_remove_prefix ?n sp"
  from Cons.prems(1) obtain ok col' mem1 cout1 cols1 where
    p: "Property_parse col ?tok ?sp1 mem cout = Some (ok, col', mem1, cout1)"
    and r: "parse_columns cols line_no (snd (Table_token line)) ?sp2 mem1
              (if \<not> ok then cout1 @ [InvalidValue ?tok (m_idx col) line_no] else cout1)
            = Some (cols1, line', sp', mem', cout')"
    by (auto simp: Let_def split: option.splits)
  have sp2: "ptr ?sp2 = ptr sp + ?n" "count ?sp2 = count sp - ?n"
    using Cons.prems(2) by (simp_all add: MemSpan_remove_prefix_def Let_def row_bytes_Cons min_def)
  have "mem1 ! i = mem ! i"
    using Property_parse_frame [OF p, of i] Cons.prems(3,4) by simp
  moreover have "mem' ! i = mem1 ! i"
    using Cons.IH [OF r] Cons.prems(2,3,4) sp2 by (simp add: row_bytes_Cons)
  ultimately show ?case by simp
qed

text \<open>The token \<^verbatim>\<open>Table::parse\<close> hands to column \<open>k\<close> of a line (the range token taken off).\<close>

definition column_token :: "nat \<Rightarrow> TextView \<Rightarrow> TextView" where
  "column_token k line = fst (Table_token (((\<lambda>l. snd (Table_token l)) ^^ k) line))"

lemma column_token_Suc:
  "column_token (Suc k) line = column_token k (snd (Table_token line))"
proof -
  have "((\<lambda>l. snd (Table_token l)) ^^ Suc k) line
      = ((\<lambda>l. snd (Table_token l)) ^^ k) (snd (Table_token line))"
    by (simp only: funpow_Suc_right comp_def)
  then show ?thesis by (simp only: column_token_def)
qed

text \<open>
  Where every field fits, the field of a flag group whose token is \<^verbatim>\<open>-\<close> is as the
  allocation left it.
\<close>

lemma parse_columns_sentinel:
  assumes "parse_columns cols line_no line sp mem cout = Some (cols', line', sp', mem', cout')"
    and "row_bytes cols \<le> count sp" and "list_all flags_fit cols"
    and "k < length cols" and "kind (cols ! k) = KFlagGroup" and "column_token k line = ''-''"
  shows "mem' ! (ptr sp + row_bytes (take k cols)) = mem ! (ptr sp + row_bytes (take k cols))"
  using assms
proof (induction cols arbitrary: k line sp mem cout cols')
  case Nil
  then show ?case by simp
next
  case (Cons col cols)
  let ?n = "unat (Property_size col)"
  let ?tok = "if needs_localized_token col then Table_localize (fst (Table_token line))
              else fst (Table_token line)"
  let ?sp1 = "\<lparr>ptr = ptr sp, count = ?n\<rparr>"
  let ?sp2 = "MemSpan_remove_prefix ?n sp"
  from Cons.prems(1) obtain ok col' mem1 cout1 cols1 where
    p: "Property_parse col ?tok ?sp1 mem cout = Some (ok, col', mem1, cout1)"
    and r: "parse_columns cols line_no (snd (Table_token line)) ?sp2 mem1
              (if \<not> ok then cout1 @ [InvalidValue ?tok (m_idx col) line_no] else cout1)
            = Some (cols1, line', sp', mem', cout')"
    by (auto simp: Let_def split: option.splits)
  have sp2: "ptr ?sp2 = ptr sp + ?n" "count ?sp2 = count sp - ?n"
    using Cons.prems(2) by (simp_all add: MemSpan_remove_prefix_def Let_def row_bytes_Cons min_def)
  have rest: "row_bytes cols \<le> count ?sp2" "list_all flags_fit cols"
    using Cons.prems(2,3) sp2 by (simp_all add: row_bytes_Cons)
  show ?case
  proof (cases k)
    case 0
    then have fg: "kind col = KFlagGroup" and tok: "fst (Table_token line) = ''-''"
      using Cons.prems(5,6) by (simp_all add: column_token_def)
    then have "?tok = ''-''" by (simp add: needs_localized_token_def)
    then have "mem1 = mem"
      using p fg by (auto simp: Property_parse_def FlagGroupProperty_parse_def split: option.splits)
    moreover have "mem' ! ptr sp = mem1 ! ptr sp"
      using parse_columns_frame [OF r rest, of "ptr sp"] sp2 fg
      by (simp add: Property_size_def FlagGroupProperty_SIZE_def)
    ultimately show ?thesis using 0 by (simp add: row_bytes_def)
  next
    case (Suc k')
    have k': "k' < length cols" "kind (cols ! k') = KFlagGroup"
      "column_token k' (snd (Table_token line)) = ''-''"
      using Cons.prems(4,5,6) Suc by (simp_all add: column_token_Suc)
    have idx: "ptr sp + row_bytes (take k (col # cols)) = ptr ?sp2 + row_bytes (take k' cols)"
      using Suc sp2 by (simp add: row_bytes_Cons)
    have "mem1 ! (ptr ?sp2 + row_bytes (take k' cols)) = mem ! (ptr ?sp2 + row_bytes (take k' cols))"
      using Property_parse_frame [OF p, of "ptr ?sp2 + row_bytes (take k' cols)"] Cons.prems(3) sp2
      by simp
    moreover have "mem' ! (ptr ?sp2 + row_bytes (take k' cols))
        = mem1 ! (ptr ?sp2 + row_bytes (take k' cols))"
      using Cons.IH [OF r rest k'] .
    ultimately show ?thesis using idx by simp
  qed
qed

lemma row_bytes_take_less:
  assumes "k < length cols" and "kind (cols ! k) = KFlagGroup"
  shows "row_bytes (take k cols) < row_bytes cols"
proof -
  have "row_bytes (take k cols @ cols ! k # drop (Suc k) cols)
      = row_bytes (take k cols) + unat (Property_size (cols ! k)) + row_bytes (drop (Suc k) cols)"
    by (simp add: row_bytes_def)
  moreover have "take k cols @ cols ! k # drop (Suc k) cols = cols"
    using assms(1) by (simp add: id_take_nth_drop [symmetric])
  ultimately have "row_bytes cols = row_bytes (take k cols) + unat (Property_size (cols ! k))
      + row_bytes (drop (Suc k) cols)"
    by simp
  moreover have "unat (Property_size (cols ! k)) = 1"
    using assms(2) by (simp add: Property_size_def FlagGroupProperty_SIZE_def)
  ultimately show ?thesis by simp
qed

lemma FlagGroupProperty_sentinel_zero_when_fits:
  assumes "table_ok t" and "k < length (m_columns t)" and "kind (m_columns t ! k) = KFlagGroup"
    and "unat (m_offset (m_columns t ! k)) = row_bytes (take k (m_columns t))"
    and "column_token k line = ''-''"
    and "parse_columns (m_columns t) line_no line \<lparr>ptr = 0, count = unat (m_size t)\<rparr>
           (arena_alloc (unat (m_size t))) cout = Some (cols', line', sp', mem', cout')"
    and "j < 8"
  shows "mem' ! unat (m_offset (m_columns t ! k)) = Byte 0"
    and "FlagGroupProperty_is_set (m_columns t ! k) j
           \<lparr>m_data = \<lparr>ptr = 0, count = unat (m_size t)\<rparr>, block = mem'\<rparr> = Some False"
proof -
  let ?off = "row_bytes (take k (m_columns t))"
  let ?sp = "\<lparr>ptr = 0, count = unat (m_size t)\<rparr>"
  have fit: "row_bytes (m_columns t) \<le> count ?sp" "list_all flags_fit (m_columns t)"
    using assms(1) by (simp_all add: table_ok_def)
  have off: "?off < unat (m_size t)"
    using row_bytes_take_less [OF assms(2,3)] fit(1) by simp
  have "mem' ! (ptr ?sp + ?off) = arena_alloc (unat (m_size t)) ! (ptr ?sp + ?off)"
    using parse_columns_sentinel [OF assms(6) fit assms(2,3,5)] .
  then have zero: "mem' ! ?off = Byte 0"
    using off by (simp add: arena_alloc_def)
  then show "mem' ! unat (m_offset (m_columns t ! k)) = Byte 0"
    using assms(4) by simp
  obtain cols'' line'' sp'' mem'' where
    "parse_columns (m_columns t) line_no line ?sp (arena_alloc (unat (m_size t))) cout
       = Some (cols'', line'', sp'', mem'', cout)" and "length mem'' = length (arena_alloc (unat (m_size t)))"
    using parse_columns_fits [of ?sp "m_columns t" "arena_alloc (unat (m_size t))" line_no line cout]
      fit by (auto simp: arena_alloc_def)
  then have len: "length mem' = unat (m_size t)"
    using assms(6) by (simp add: arena_alloc_def)
  have "j div 8 = 0" using assms(7) by simp
  then show "FlagGroupProperty_is_set (m_columns t ! k) j
           \<lparr>m_data = ?sp, block = mem'\<rparr> = Some False"
    using zero off len assms(4)
    by (simp add: FlagGroupProperty_is_set_def Row_span_for_def MemSpan_remove_prefix_def
        span_load_def Let_def min_def)
qed

text \<open>The sub-tokens of a token, as the loop of \<^verbatim>\<open>FlagGroupProperty::parse\<close> takes them off.\<close>

function sub_tokens :: "TextView \<Rightarrow> TextView list" where
  "sub_tokens token =
     (if token \<noteq> [] then
        fst (take_prefix_at CHR '';'' token) # sub_tokens (snd (take_prefix_at CHR '';'' token))
      else [])"
  by pat_completeness auto
termination
  by (relation "measure length") (simp_all add: take_prefix_at_shorter)

declare sub_tokens.simps [simp del]

lemma FlagGroup_for_result:
  assumes "ptr sp < length mem" and "j + length keys \<le> 8" and "mem ! ptr sp = Byte w"
  shows "FlagGroup_for keys tag j sp mem
    = Some (j + find_if (\<lambda>key. strcasecmp_eq key tag) keys,
            if find_if (\<lambda>key. strcasecmp_eq key tag) keys < length keys
            then mem[ptr sp := Byte (w OR push_bit (j + find_if (\<lambda>key. strcasecmp_eq key tag) keys) 1)]
            else mem)"
  using assms
proof (induction keys arbitrary: j)
  case Nil
  then show ?case by (simp add: find_if_def)
next
  case (Cons key keys)
  show ?case
  proof (cases "strcasecmp_eq key tag")
    case True
    have "j div 8 = 0" "j mod 8 = j" using Cons.prems(2) by simp_all
    then show ?thesis
      using True Cons.prems(1,3) by (simp add: find_if_def span_load_def span_store_def)
  next
    case False
    have "j + 1 + length keys \<le> 8" using Cons.prems(2) by simp
    from Cons.IH [OF Cons.prems(1) this Cons.prems(3)] False
    show ?thesis by (simp add: find_if_def)
  qed
qed

lemma bit_or_push_bit_8:
  fixes w :: "8 word"
  assumes "k < 8"
  shows "bit (w OR push_bit k 1) i \<longleftrightarrow> bit w i \<or> i = k"
  using assms by (auto simp: bit_simps)

lemma FlagGroup_while_bits:
  assumes "ptr sp < length mem" and "length tags \<le> 8" and "mem ! ptr sp = Byte w"
  shows "\<exists>w'. FlagGroup_while tags token sp mem cout = Some (True, mem[ptr sp := Byte w'], cout)
          \<and> (\<forall>i. bit w' i \<longleftrightarrow> bit w i
                \<or> (i < length tags
                    \<and> (\<exists>tag \<in> set (sub_tokens token).
                          find_if (\<lambda>key. strcasecmp_eq key tag) tags = i)))"
  using assms
proof (induction tags token sp mem cout arbitrary: w rule: FlagGroup_while.induct)
  case (1 tags token span mem cout)
  show ?case
  proof (cases "token = []")
    case True
    have same: "mem[ptr span := Byte w] = mem"
      using "1.prems"(3) by (metis list_update_id)
    have "FlagGroup_while tags token span mem cout = Some (True, mem[ptr span := Byte w], cout)"
      using True unfolding same by (subst FlagGroup_while.simps) simp
    moreover have "sub_tokens token = []"
      using True by (simp add: sub_tokens.simps)
    ultimately show ?thesis by auto
  next
    case False
    let ?tag = "fst (take_prefix_at CHR '';'' token)"
    let ?tok' = "snd (take_prefix_at CHR '';'' token)"
    let ?n = "find_if (\<lambda>key. strcasecmp_eq key ?tag) tags"
    let ?w1 = "if ?n < length tags then w OR push_bit ?n 1 else w"
    let ?mem1 = "mem[ptr span := Byte ?w1]"
    have "0 + length tags \<le> 8" using "1.prems"(2) by simp
    from FlagGroup_for_result [OF "1.prems"(1) this "1.prems"(3), of ?tag]
    have f: "FlagGroup_for tags ?tag 0 span mem = Some (?n, ?mem1)"
      using "1.prems"(3) list_update_id [of mem "ptr span"] by (simp split: if_splits)
    have n: "\<not> length tags < ?n" using find_if_le [of _ tags] by (simp add: not_less)
    have unf: "FlagGroup_while tags token span mem cout = FlagGroup_while tags ?tok' span ?mem1 cout"
      using False f n by (subst FlagGroup_while.simps) (simp add: Let_def)
    have pre: "ptr span < length ?mem1" "?mem1 ! ptr span = Byte ?w1"
      using "1.prems"(1) by simp_all
    from "1.IH" [OF False refl refl f refl n pre(1) "1.prems"(2) pre(2)]
    obtain w' where r: "FlagGroup_while tags ?tok' span ?mem1 cout
          = Some (True, ?mem1[ptr span := Byte w'], cout)"
      and bits: "\<forall>i. bit w' i \<longleftrightarrow> bit ?w1 i
                \<or> (i < length tags
                    \<and> (\<exists>tag \<in> set (sub_tokens ?tok').
                          find_if (\<lambda>key. strcasecmp_eq key tag) tags = i))"
      by blast
    have st: "sub_tokens token = ?tag # sub_tokens ?tok'"
      using False by (subst sub_tokens.simps) simp
    have w1: "bit ?w1 i \<longleftrightarrow> bit w i \<or> (i < length tags \<and> ?n = i)" for i
    proof (cases "?n < length tags")
      case True
      then have "?n < 8" using "1.prems"(2) by simp
      then have "bit (w OR push_bit ?n 1) i \<longleftrightarrow> bit w i \<or> i = ?n"
        by (rule bit_or_push_bit_8)
      then show ?thesis unfolding if_P [OF True] using True by blast
    next
      case False
      then show ?thesis unfolding if_not_P [OF False] by blast
    qed
    have "FlagGroup_while tags token span mem cout = Some (True, mem[ptr span := Byte w'], cout)"
      using unf r by simp
    moreover have "\<forall>i. bit w' i \<longleftrightarrow> bit w i
                \<or> (i < length tags
                    \<and> (\<exists>tag \<in> set (sub_tokens token).
                          find_if (\<lambda>key. strcasecmp_eq key tag) tags = i))"
      using bits w1 unfolding st by auto
    ultimately show ?thesis by blast
  qed
qed

text \<open>
  With at most 8 tags, a token other than \<^verbatim>\<open>-\<close> is always accepted, and the byte of the
  field has bit \<open>i\<close> set exactly when some sub-token matches, as its first match, tag \<open>i\<close>.
\<close>

lemma FlagGroupProperty_parse_bits:
  assumes "ptr sp < length mem" and "count sp = 1" and "length tags \<le> 8" and "token \<noteq> ''-''"
  shows "\<exists>w. FlagGroupProperty_parse tags token sp mem cout = Some (True, mem[ptr sp := Byte w], cout)
          \<and> (\<forall>i. bit w i \<longleftrightarrow> i < length tags
                    \<and> (\<exists>tag \<in> set (sub_tokens token).
                          find_if (\<lambda>key. strcasecmp_eq key tag) tags = i))"
proof -
  let ?mem0 = "mem[ptr sp := Byte 0]"
  have "take (ptr sp) mem @ [Byte 0] @ drop (ptr sp + 1) mem = ?mem0"
    using assms(1) by (simp add: upd_conv_take_nth_drop)
  then have ms: "memset_span mem sp 0 = Some ?mem0"
    using assms(1,2) by (simp add: memset_span_def store_bytes_def)
  have pre: "ptr sp < length ?mem0" "?mem0 ! ptr sp = Byte 0"
    using assms(1) by simp_all
  from FlagGroup_while_bits [OF pre(1) assms(3) pre(2), of token cout]
  show ?thesis using ms assms(4) by (simp add: FlagGroupProperty_parse_def)
qed

section \<open>\<^verbatim>\<open>FlagProperty\<close>\<close>

definition FlagProperty_SIZE :: "64 word" where
  \<comment> \<open>\<^verbatim>\<open>sizeof(bool)\<close> (line 286)\<close>
  "FlagProperty_SIZE = 1"

text \<open>
  Modelled from the spec: \<^verbatim>\<open>FlagProperty::parse\<close> is declared on line 289 and defined
  nowhere in the source. The spec says: "parse succeeds iff token matches one of two
  recognized literal strings (case conventions same as source); writes a single boolean
  byte. Any other token is a parse failure", the token being one of "a fixed pair of
  literal accept/reject strings". Neither the two literals nor the comparison is in the
  source, so they are parameters: \<open>matches\<close>, \<open>accept\<close> and \<open>reject\<close>. The byte is
  \<^verbatim>\<open>true\<close> for the first literal and \<^verbatim>\<open>false\<close> for the second.
\<close>

definition FlagProperty_parse ::
  "(TextView \<Rightarrow> TextView \<Rightarrow> bool) \<Rightarrow> TextView \<Rightarrow> TextView
   \<Rightarrow> TextView \<Rightarrow> MemSpan \<Rightarrow> memory \<Rightarrow> (bool \<times> memory) option" where
  "FlagProperty_parse matches accept reject token span mem =
     (if matches token accept then
        (case span_store mem span 0 (Byte 1) of None \<Rightarrow> None | Some mem' \<Rightarrow> Some (True, mem'))
      else if matches token reject then
        (case span_store mem span 0 (Byte 0) of None \<Rightarrow> None | Some mem' \<Rightarrow> Some (True, mem'))
      else Some (False, mem))"

text \<open>
  C9. With the byte of its span inside the row, the parse of a \<^verbatim>\<open>FlagProperty\<close> returns
  \<^verbatim>\<open>true\<close> exactly when the token matches one of the two literals; it then writes one
  byte, 1 or 0, at the start of its span (the span has \<^verbatim>\<open>SIZE = sizeof(bool)\<close>, one byte)
  and changes no other byte. For any other token it returns \<^verbatim>\<open>false\<close> and writes nothing.
\<close>

theorem FlagProperty_parse_literals:
  assumes "ptr sp < length mem"
  shows "\<exists>ok mem'. FlagProperty_parse matches accept reject token sp mem = Some (ok, mem')
           \<and> (ok \<longleftrightarrow> matches token accept \<or> matches token reject)
           \<and> (ok \<longrightarrow> (\<exists>b. mem' = mem[ptr sp := Byte b] \<and> (b = 0 \<or> b = 1)))
           \<and> (\<not> ok \<longrightarrow> mem' = mem)
           \<and> length mem' = length mem
           \<and> unat FlagProperty_SIZE = 1"
  using assms
  by (auto simp: FlagProperty_parse_def span_store_def FlagProperty_SIZE_def)

theorem FlagProperty_parse_literals_witness:
  "ptr \<lparr>ptr = 1, count = 1\<rparr> < length [Byte 7, Byte 7]
   \<and> FlagProperty_parse (=) ''true'' ''false'' ''true'' \<lparr>ptr = 1, count = 1\<rparr> [Byte 7, Byte 7]
       = Some (True, [Byte 7, Byte 1])
   \<and> FlagProperty_parse (=) ''true'' ''false'' ''false'' \<lparr>ptr = 1, count = 1\<rparr> [Byte 7, Byte 7]
       = Some (True, [Byte 7, Byte 0])
   \<and> FlagProperty_parse (=) ''true'' ''false'' ''maybe'' \<lparr>ptr = 1, count = 1\<rparr> [Byte 7, Byte 7]
       = Some (False, [Byte 7, Byte 7])"
proof -
  have sp: "ptr \<lparr>ptr = 1, count = 1\<rparr> < length [Byte 7, Byte 7]"
    by simp
  have ne: "''maybe'' \<noteq> ''true''" "''maybe'' \<noteq> ''false''"
    by simp_all
  from FlagProperty_parse_literals [OF sp, of "(=)" "''true''" "''false''" "''maybe''"] ne
  have "FlagProperty_parse (=) ''true'' ''false'' ''maybe'' \<lparr>ptr = 1, count = 1\<rparr> [Byte 7, Byte 7]
       = Some (False, [Byte 7, Byte 7])"
    by auto
  moreover
  have "FlagProperty_parse (=) ''true'' ''false'' ''true'' \<lparr>ptr = 1, count = 1\<rparr> [Byte 7, Byte 7]
       = Some (True, [Byte 7, Byte 1])"
    by (simp add: FlagProperty_parse_def span_store_def)
  moreover
  have "FlagProperty_parse (=) ''true'' ''false'' ''false'' \<lparr>ptr = 1, count = 1\<rparr> [Byte 7, Byte 7]
       = Some (True, [Byte 7, Byte 0])"
    by (simp add: FlagProperty_parse_def span_store_def)
  ultimately show ?thesis using sp by simp
qed

section \<open>Where the code departs from its description\<close>

definition example_src :: TextView where
  "example_src =
     ''10.1.1.0/24,asf,cmi,prod;internal,'' @ [QUOTE] @ ''ASF core net'' @ [QUOTE, CHR 0x0A] @
     ''192.168.28.0/25,asf,ind,prod,'' @ [QUOTE] @ ''Indy Net'' @ [QUOTE, CHR 0x0A] @
     ''192.168.28.128/25,asf,abq,dmz;internal,'' @ [QUOTE] @ ''Albuquerque zone'' @ [QUOTE, CHR 0x0A]"

definition example_row :: "nat \<Rightarrow> Row option" where
  "example_row k =
     (case Table_parse no_range example_src example_table [] of
        None \<Rightarrow> None
      | Some (ok, t, cout) \<Rightarrow> Some (snd (m_space t ! k)))"

text \<open>
  C2. A sub-token that matches no tag is meant to fail the parse: the source prints
  "Tag ... is not recognized" and returns \<^verbatim>\<open>false\<close> when \<^verbatim>\<open>j > _tags.size()\<close> (line 360).
  The loop before it leaves \<open>j\<close> at most equal to the number of tags, so the test
  never holds. With the tags \<^verbatim>\<open>prod\<close>, \<^verbatim>\<open>dmz\<close>, \<^verbatim>\<open>internal\<close> the token \<^verbatim>\<open>prod;bogus\<close> is
  accepted: the result is \<^verbatim>\<open>true\<close>, bit 0 is set and nothing is printed.
\<close>

theorem FlagGroupProperty_parse_unknown_tag:
  "FlagGroupProperty_parse [''prod'', ''dmz'', ''internal''] ''prod;bogus''
     \<lparr>ptr = 0, count = 1\<rparr> (arena_alloc 1) []
   = Some (True, [Byte 1], [])"
  by code_simp

text \<open>
  C7. \<^verbatim>\<open>Row::span_for\<close> removes the bytes before the property's offset from the row's
  span and removes nothing after the property's field. For the first row of the
  example and its column 2 (the flag group, of size 1 at offset 2 of a row of 19 bytes)
  the span returned has 17 bytes, not 1.
\<close>

theorem Row_span_for_length:
  "(case example_row 0 of
      None \<Rightarrow> None
    | Some row \<Rightarrow> Some (Row_span_for row (m_columns example_table ! 2),
                        unat (Property_size (m_columns example_table ! 2))))
   = Some (\<lparr>ptr = 2, count = 17\<rparr>, 1)"
  by code_simp

definition overflow_table :: Table where
  "overflow_table =
     add_columns
       [FlagGroupProperty ''a'' [''t0'', ''t1'', ''t2'', ''t3'', ''t4'', ''t5'', ''t6'', ''t7'', ''t8''],
        FlagGroupProperty ''b'' [''x'']]
       Table_empty"

text \<open>
  C3. For the token \<^verbatim>\<open>-\<close> \<^verbatim>\<open>FlagGroupProperty::parse\<close> returns before it clears its
  field (line 348 is before the \<^verbatim>\<open>memset\<close> of line 349), so the field keeps what the row
  held. A flag group with more than 8 tags writes its ninth bit into the byte after
  its own field. With a flag group of 9 tags followed by a second flag group, the line
  \<^verbatim>\<open>10.0.0.0/8,t8,-\<close> leaves the second field at 1, and bit 0 of the second group reads
  as set, although its token was \<^verbatim>\<open>-\<close>.
\<close>

theorem FlagGroupProperty_sentinel_not_zero:
  "(case Table_parse no_range ''10.0.0.0/8,t8,-'' overflow_table [] of
      None \<Rightarrow> None
    | Some (ok, t, cout) \<Rightarrow>
        Some (ok, cout, block (snd (m_space t ! 0)),
              FlagGroupProperty_is_set (m_columns t ! 1) 0 (snd (m_space t ! 0))))
   = Some (True, [], [Byte 0, Byte 1], Some True)"
  by code_simp

end
